theory Spec2Isabelle
  imports Main "HOL-Library.Word" "HOL-Library.Multiset"
begin

section \<open>Common machine model\<close>

text \<open>
  \<open>size_t\<close> is the 64-bit unsigned type of the platform the tests are written for
  (they instantiate \<open>size_t\<close> template parameters with \<open>0x100000000\<close>).  A range
  \<open>[begin, end)\<close> over a \<open>std::vector\<close> is a list together with indices relative to
  \<open>begin\<close>.  Behaviour the C++ abstract machine leaves undefined is a \<open>fault\<close> value:
  it is what the code runs into, never a check the code performs.  \<open>UseAfterDestruction\<close>
  is the use of a member of the pool after the destructor of the pool has destroyed it.
\<close>

type_synonym size_t = "64 word"

datatype fault = DivisionByZero | OutOfRange | DanglingReference | UseAfterDestruction

section \<open>Parallel unique (unique.hpp)\<close>

subsection \<open>The two standard algorithms the code calls\<close>

text \<open>
  \<open>std::unique(first, last)\<close> without a predicate compares with \<open>operator==\<close>, which
  is HOL equality here.  The loop is the reference formulation of the C++ standard library:
  \<open>result\<close> trails \<open>first\<close> and receives every element that differs from \<open>*result\<close>.
\<close>

function unique_loop :: "'a list \<Rightarrow> nat \<Rightarrow> nat \<Rightarrow> nat \<Rightarrow> 'a list \<times> nat" where
  "unique_loop a result first lst =
     (if lst \<le> first then (a, Suc result)
      else if a ! result \<noteq> a ! first then
        (if Suc result \<noteq> first
         then unique_loop (a[Suc result := a ! first]) (Suc result) (Suc first) lst
         else unique_loop a (Suc result) (Suc first) lst)
      else unique_loop a result (Suc first) lst)"
  by pat_completeness auto
termination
  by (relation "measure (\<lambda>(a, r, f, l). l - f)") auto

declare unique_loop.simps [simp del]

definition std_unique :: "'a list \<Rightarrow> nat \<Rightarrow> nat \<Rightarrow> 'a list \<times> nat" where
  "std_unique a first lst =
     (if first = lst then (a, lst) else unique_loop a first (Suc first) lst)"

text \<open>\<open>std::copy(first, last, d)\<close>: a forward element-by-element copy inside one array.\<close>

function std_copy :: "'a list \<Rightarrow> nat \<Rightarrow> nat \<Rightarrow> nat \<Rightarrow> 'a list" where
  "std_copy a first lst d =
     (if first < lst then std_copy (a[d := a ! first]) (Suc first) lst (Suc d) else a)"
  by pat_completeness auto
termination
  by (relation "measure (\<lambda>(a, f, l, d). l - f)") auto

declare std_copy.simps [simp del]

subsection \<open>mt::unique\<close>

record 'a unique_result =
  elems :: "'a list"
  new_end :: nat
  executions :: nat

text \<open>
  First loop of \<open>mt::unique\<close>: chunk \<open>i\<close> is \<open>[part_size * i, part_size * (i + 1))\<close>, the
  last chunk ends at \<open>end\<close>; one \<open>std::async\<close> execution per chunk runs \<open>std::unique\<close>
  (without the predicate \<open>p\<close>) on it.  The chunks are disjoint, so the executions are
  performed one after the other here; \<open>threads\<close> collects the iterators they return.
\<close>

definition chunk_begin :: "nat \<Rightarrow> nat \<Rightarrow> nat" where
  "chunk_begin part_size i = part_size * i"

definition chunk_end :: "nat \<Rightarrow> nat \<Rightarrow> nat \<Rightarrow> nat \<Rightarrow> nat" where
  "chunk_end n part_size threads_amount i =
     (if i = threads_amount - 1 then n else part_size * (i + 1))"

fun launch :: "nat \<Rightarrow> nat \<Rightarrow> nat list \<Rightarrow> 'a list \<times> nat list \<Rightarrow> 'a list \<times> nat list" where
  "launch part_size threads_amount [] (a, threads) = (a, threads)"
| "launch part_size threads_amount (i # is) (a, threads) =
     (let (a', r) = std_unique a (chunk_begin part_size i)
                      (chunk_end (length a) part_size threads_amount i)
      in launch part_size threads_amount is (a', threads @ [r]))"

text \<open>
  Second loop: \<open>p(*_begin, *(last - 1))\<close> reads chunk \<open>i\<close>'s first slot and the slot before
  \<open>last\<close>; both reads are out of range when the slot does not exist.  \<open>std::copy\<close> with
  \<open>_begin\<close> beyond \<open>_last\<close> runs off the range.
\<close>

fun merge_chunks :: "('a \<Rightarrow> 'a \<Rightarrow> bool) \<Rightarrow> nat \<Rightarrow> nat list \<Rightarrow> nat list \<Rightarrow> 'a list \<times> nat
                      \<Rightarrow> fault + ('a list \<times> nat)" where
  "merge_chunks p part_size threads [] (a, lst) = Inr (a, lst)"
| "merge_chunks p part_size threads (i # is) (a, lst) =
     (let b = chunk_begin part_size i; l = threads ! i in
      if length a \<le> b \<or> lst = 0 \<or> length a < lst then Inl OutOfRange
      else let b' = (if p (a ! b) (a ! (lst - 1)) then Suc b else b) in
        if l < b' then Inl OutOfRange
        else merge_chunks p part_size threads is (std_copy a b' l lst, lst + (l - b')))"

definition unique :: "'a list \<Rightarrow> ('a \<Rightarrow> 'a \<Rightarrow> bool) \<Rightarrow> size_t \<Rightarrow> fault + 'a unique_result" where
  "unique a p threads_amount =
     (if threads_amount = 0 then Inl DivisionByZero
      else let t = unat threads_amount;
               part_size = length a div t;
               (a1, threads) = launch part_size t [0..<t] (a, [])
           in case merge_chunks p part_size threads [1..<t] (a1, threads ! 0) of
                Inl f \<Rightarrow> Inl f
              | Inr (a2, lst) \<Rightarrow>
                  Inr \<lparr>elems = a2, new_end = lst, executions = length threads\<rparr>)"

section \<open>Worker pool (thread_pool.hpp)\<close>

subsection \<open>Tasks, threads and the state of a pool\<close>

text \<open>
  A task is a callable bound to its arguments (\<open>std::bind\<close> copies them at \<open>push\<close>).
  What running it does to the pool is part of the task: the tasks it pushes, in order,
  and whether it ends by throwing.  (The tasks of \<open>mt::sort\<close> compute what they push
  when they run; see \<open>sort_step\<close> below.)
\<close>

datatype task = Task (callable: nat) (args: "nat list") (spawns: "task list") (throws: bool)

text \<open>
  Where a worker thread stands in \<open>worker()\<close>:
  \<^item> \<open>WStart\<close>: created, before it first takes \<open>queue_mutex\<close>;
  \<^item> \<open>WRunning f ps\<close>: inside \<open>task()\<close> for \<open>f\<close>, the mutex released, \<open>ps\<close> still to push;
  \<^item> \<open>WBlocking\<close>: has read \<open>shutdown_request\<close> as false and is about to call
    \<open>queue_cv.wait\<close>, still holding the mutex;
  \<^item> \<open>WWaiting\<close>: blocked in \<open>queue_cv.wait\<close>; \<open>WWoken\<close>: woken, before it retakes the mutex;
  \<^item> \<open>WExited\<close>: returned from \<open>worker()\<close>; \<open>WCrashed\<close>: left \<open>worker()\<close> by an exception.
\<close>

datatype wstate = WStart | WRunning task "task list" | WBlocking | WWaiting | WWoken
  | WExited | WCrashed

text \<open>
  The thread that owns the pool runs \<open>push\<close> and \<open>wait\<close> calls and finally the
  destructor.  Its body is \<open>wait()\<close>, the store to \<open>shutdown_request\<close> and
  \<open>queue_cv.notify_all()\<close>; it has no join statement.  After the body the members are
  destroyed in the reverse order of their declaration: \<open>wait_cv\<close>, \<open>queue_cv\<close>,
  \<open>queue_mutex\<close> and \<open>task_queue\<close> first (\<open>DestroyMembers\<close>: the tasks still queued are
  destroyed without having run), and \<open>threads\<close>, declared first, last (\<open>Join\<close>: the
  destructor of each \<open>std::async\<close> future blocks until its thread has ended).
\<close>

datatype cmd = Push task | Wait | SetShutdown | NotifyAll | DestroyMembers | Join

datatype cstate = CReady | CWaiting | CWoken

text \<open>
  \<open>destroyed\<close>: the queue, the mutex and the condition variables have been destroyed.
  \<open>failure\<close>: a thread has used one of them after that, which is undefined behaviour;
  the model follows the execution no further.  The destruction itself is taken to
  succeed whatever the workers are doing (the standard library's requirements on the
  destructors of a mutex and of a condition variable are not checked).
  The lists \<open>submitted\<close>, \<open>started\<close>,
  \<open>finished\<close> and \<open>discarded\<close> are a record of what happened to the tasks, in order:
  added to the queue, taken from it by a worker, run to their end, destroyed in the queue.
\<close>

record pool =
  task_queue :: "task list"
  active :: nat
  shutdown_request :: bool
  threads :: "wstate list"
  client :: cstate
  program :: "cmd list"
  destroyed :: bool
  failure :: "fault option"
  submitted :: "task list"
  started :: "task list"
  finished :: "task list"
  discarded :: "task list"

definition destructor :: "cmd list" where
  "destructor = [Wait, SetShutdown, NotifyAll, DestroyMembers, Join]"

text \<open>
  The constructor spawns \<open>threads_amount\<close> workers; it has no other statement.  The
  creation of a thread is taken to succeed.
\<close>

definition thread_pool :: "nat \<Rightarrow> cmd list \<Rightarrow> pool" where
  "thread_pool threads_amount calls_made =
     \<lparr>task_queue = [], active = 0, shutdown_request = False,
      threads = replicate threads_amount WStart, client = CReady,
      program = calls_made @ destructor, destroyed = False, failure = None,
      submitted = [], started = [], finished = [], discarded = []\<rparr>"

subsection \<open>Condition variables\<close>

text \<open>
  \<open>notify_one\<close> wakes one of the threads blocked on \<open>queue_cv\<close>, if any; which one is the
  scheduler's choice.  \<open>notify_all\<close> wakes them all.  Only the owner blocks on \<open>wait_cv\<close>.
\<close>

fun waiting_workers :: "wstate list \<Rightarrow> nat \<Rightarrow> nat list" where
  "waiting_workers [] i = []"
| "waiting_workers (w # ws) i =
     (if w = WWaiting then i # waiting_workers ws (Suc i) else waiting_workers ws (Suc i))"

definition notify_one :: "nat \<Rightarrow> wstate list \<Rightarrow> wstate list" where
  "notify_one choice ws =
     (case waiting_workers ws 0 of
        [] \<Rightarrow> ws
      | i # is \<Rightarrow> ws[(i # is) ! (choice mod length (i # is)) := WWoken])"

definition notify_all :: "wstate list \<Rightarrow> wstate list" where
  "notify_all ws = map (\<lambda>w. if w = WWaiting then WWoken else w) ws"

definition notify_all_wait :: "cstate \<Rightarrow> cstate" where
  "notify_all_wait c = (if c = CWaiting then CWoken else c)"

text \<open>The mutex is held between two steps only by a worker that is \<open>WBlocking\<close>.\<close>

definition lock_free :: "pool \<Rightarrow> bool" where
  "lock_free s \<longleftrightarrow> WBlocking \<notin> set (threads s)"

text \<open>
  \<open>locked s s'\<close>: a thread takes \<open>queue_mutex\<close> in state \<open>s\<close> and leaves the pool in \<open>s'\<close>
  when it next releases it.  Locking a mutex that has been destroyed is undefined; while
  another thread holds the mutex the step is not enabled.
\<close>

definition use_after_destruction :: "pool \<Rightarrow> pool" where
  "use_after_destruction s = s\<lparr>failure := Some UseAfterDestruction\<rparr>"

definition locked :: "pool \<Rightarrow> pool \<Rightarrow> pool option" where
  "locked s s' =
     (if destroyed s then Some (use_after_destruction s)
      else if lock_free s then Some s' else None)"

subsection \<open>\<open>add\<close>, \<open>worker\<close>, \<open>wait\<close> and the destructor, step by step\<close>

definition add :: "task \<Rightarrow> nat \<Rightarrow> pool \<Rightarrow> pool" where
  "add f choice s =
     s\<lparr>task_queue := task_queue s @ [f], submitted := submitted s @ [f],
       threads := notify_one choice (threads s)\<rparr>"

text \<open>
  The inner loop of \<open>worker\<close> with the mutex held: take the front task and release the
  mutex to run it, or, the queue being empty, decrement \<open>active\<close>, signal \<open>wait_cv\<close> if
  it is zero and test \<open>shutdown_request\<close>.
\<close>

definition drain :: "nat \<Rightarrow> pool \<Rightarrow> pool" where
  "drain w s =
     (case task_queue s of
        f # q \<Rightarrow> s\<lparr>task_queue := q, threads := (threads s)[w := WRunning f (spawns f)],
                   started := started s @ [f]\<rparr>
      | [] \<Rightarrow>
          (let a = active s - 1;
               c = (if a = 0 then notify_all_wait (client s) else client s)
           in s\<lparr>active := a, client := c,
                threads := (threads s)[w := (if shutdown_request s then WExited else WBlocking)]\<rparr>))"

text \<open>
  One step of worker \<open>w\<close>.  A task that throws is not caught anywhere in \<open>worker\<close>: the
  exception leaves the function between \<open>task()\<close> and \<open>queue_mutex.lock()\<close>, so neither
  the loop nor \<open>active--\<close> is reached again by this thread.  (While unwinding, the
  destructor of \<open>lock\<close> unlocks a mutex the thread does not hold; the state keeps no
  trace of that.)
\<close>

definition worker :: "nat \<Rightarrow> nat \<Rightarrow> pool \<Rightarrow> pool option" where
  "worker w choice s =
     (if length (threads s) \<le> w then None
      else case threads s ! w of
        WStart \<Rightarrow> locked s (drain w (s\<lparr>active := active s + 1\<rparr>))
      | WWoken \<Rightarrow> locked s (drain w (s\<lparr>active := active s + 1\<rparr>))
      | WRunning f (p # ps) \<Rightarrow>
          locked s (add p choice (s\<lparr>threads := (threads s)[w := WRunning f ps]\<rparr>))
      | WRunning f [] \<Rightarrow>
          if throws f
          then Some (s\<lparr>threads := (threads s)[w := WCrashed], finished := finished s @ [f]\<rparr>)
          else locked s (drain w (s\<lparr>finished := finished s @ [f]\<rparr>))
      | WBlocking \<Rightarrow>
          if destroyed s then Some (use_after_destruction s)
          else Some (s\<lparr>threads := (threads s)[w := WWaiting]\<rparr>)
      | WWaiting \<Rightarrow> None
      | WExited \<Rightarrow> None
      | WCrashed \<Rightarrow> None)"

text \<open>
  One step of the owner.  \<open>wait()\<close> tests the queue and \<open>active\<close> once, with \<open>if\<close>, and
  returns as soon as \<open>wait_cv.wait\<close> returns.  The store to \<open>shutdown_request\<close> and
  \<open>notify_all\<close> in the destructor are made without the mutex, so they fall between any
  two steps of the workers.  (\<open>shutdown_request\<close> is a \<open>volatile bool\<close>, not an atomic; the
  store is one step here, and a worker reads either the old or the new value.)
\<close>

definition wait_blocks :: "pool \<Rightarrow> bool" where
  "wait_blocks s \<longleftrightarrow> task_queue s \<noteq> [] \<or> active s > 0"

definition owner :: "nat \<Rightarrow> pool \<Rightarrow> pool option" where
  "owner choice s =
     (case client s of
        CWaiting \<Rightarrow> None
      | CWoken \<Rightarrow> locked s (s\<lparr>client := CReady, program := tl (program s)\<rparr>)
      | CReady \<Rightarrow>
          (case program s of
             [] \<Rightarrow> None
           | Push f # rest \<Rightarrow> locked s (add f choice (s\<lparr>program := rest\<rparr>))
           | Wait # rest \<Rightarrow>
               locked s (if wait_blocks s then s\<lparr>client := CWaiting\<rparr> else s\<lparr>program := rest\<rparr>)
           | SetShutdown # rest \<Rightarrow> Some (s\<lparr>shutdown_request := True, program := rest\<rparr>)
           | NotifyAll # rest \<Rightarrow>
               Some (s\<lparr>threads := notify_all (threads s), program := rest\<rparr>)
           | DestroyMembers # rest \<Rightarrow>
               Some (s\<lparr>task_queue := [], discarded := discarded s @ task_queue s,
                       destroyed := True, program := rest\<rparr>)
           | Join # rest \<Rightarrow>
               if list_all (\<lambda>w. w = WExited \<or> w = WCrashed) (threads s)
               then Some (s\<lparr>program := rest\<rparr>) else None))"

text \<open>
  A condition variable's \<open>wait\<close> may also return without a notification (a spurious
  wake-up, which the C++ standard allows).
\<close>

datatype event = Worker nat nat | Owner nat | Spurious_worker nat | Spurious_owner

definition step :: "event \<Rightarrow> pool \<Rightarrow> pool option" where
  "step ev s =
     (if failure s \<noteq> None then None
      else case ev of
        Worker w choice \<Rightarrow> worker w choice s
      | Owner choice \<Rightarrow> owner choice s
      | Spurious_worker w \<Rightarrow>
          if w < length (threads s) \<and> threads s ! w = WWaiting
          then Some (s\<lparr>threads := (threads s)[w := WWoken]\<rparr>) else None
      | Spurious_owner \<Rightarrow>
          if client s = CWaiting then Some (s\<lparr>client := CWoken\<rparr>) else None)"

fun run :: "event list \<Rightarrow> pool \<Rightarrow> pool option" where
  "run [] s = Some s"
| "run (ev # evs) s = (case step ev s of None \<Rightarrow> None | Some s' \<Rightarrow> run evs s')"

definition reachable :: "nat \<Rightarrow> cmd list \<Rightarrow> pool \<Rightarrow> bool" where
  "reachable threads_amount calls_made s \<longleftrightarrow>
     (\<exists>evs. run evs (thread_pool threads_amount calls_made) = Some s)"

section \<open>Parallel sort (sort.hpp)\<close>

subsection \<open>Ranges and the standard algorithms the code calls\<close>

text \<open>
  \<open>subrange a b e\<close> is the content of \<open>[begin + b, begin + e)\<close>; \<open>put_subrange a b e ys\<close> writes
  \<open>ys\<close> back over it.  \<open>std::partition\<close> and \<open>std::sort\<close> belong to the standard
  library, not to this repository: they are parameters \<open>part\<close> and \<open>srt\<close>, constrained
  by the postconditions the C++ standard gives them.  \<open>part P xs\<close> returns the reordered
  range and the offset of the returned iterator.
\<close>

definition subrange :: "'a list \<Rightarrow> nat \<Rightarrow> nat \<Rightarrow> 'a list" where
  "subrange a b e = take (e - b) (drop b a)"

definition put_subrange :: "'a list \<Rightarrow> nat \<Rightarrow> nat \<Rightarrow> 'a list \<Rightarrow> 'a list" where
  "put_subrange a b e ys = take b a @ ys @ drop e a"

type_synonym 'a std_partition = "('a \<Rightarrow> bool) \<Rightarrow> 'a list \<Rightarrow> 'a list \<times> nat"
type_synonym 'a std_sort = "('a \<Rightarrow> 'a \<Rightarrow> bool) \<Rightarrow> 'a list \<Rightarrow> 'a list"

definition partition_ok :: "'a std_partition \<Rightarrow> bool" where
  "partition_ok part \<longleftrightarrow>
     (\<forall>P xs. mset (fst (part P xs)) = mset xs \<and> snd (part P xs) \<le> length xs \<and>
             (\<forall>x \<in> set (take (snd (part P xs)) (fst (part P xs))). P x) \<and>
             (\<forall>x \<in> set (drop (snd (part P xs)) (fst (part P xs))). \<not> P x))"

definition sort_ok :: "('a \<Rightarrow> 'a \<Rightarrow> bool) \<Rightarrow> 'a std_sort \<Rightarrow> bool" where
  "sort_ok cmp srt \<longleftrightarrow>
     (\<forall>xs. mset (srt cmp xs) = mset xs \<and> sorted_wrt (\<lambda>x y. \<not> cmp y x) (srt cmp xs))"

text \<open>The \<open>Compare\<close> requirements: a strict weak ordering.\<close>

definition strict_weak_order :: "('a \<Rightarrow> 'a \<Rightarrow> bool) \<Rightarrow> bool" where
  "strict_weak_order cmp \<longleftrightarrow>
     (\<forall>x. \<not> cmp x x) \<and>
     (\<forall>x y z. cmp x y \<and> cmp y z \<longrightarrow> cmp x z) \<and>
     (\<forall>x y z. \<not> cmp x y \<and> \<not> cmp y x \<and> \<not> cmp y z \<and> \<not> cmp z y
                \<longrightarrow> \<not> cmp x z \<and> \<not> cmp z x)"

definition partition_range ::
  "'a std_partition \<Rightarrow> ('a \<Rightarrow> bool) \<Rightarrow> 'a list \<Rightarrow> nat \<Rightarrow> nat \<Rightarrow> 'a list \<times> nat" where
  "partition_range part P a b e =
     (let r = part P (subrange a b e) in (put_subrange a b e (fst r), b + snd r))"

definition sort_range ::
  "'a std_sort \<Rightarrow> ('a \<Rightarrow> 'a \<Rightarrow> bool) \<Rightarrow> 'a list \<Rightarrow> nat \<Rightarrow> nat \<Rightarrow> 'a list" where
  "sort_range srt cmp a b e = put_subrange a b e (srt cmp (subrange a b e))"

subsection \<open>The task body \<open>quick_sort\<close>\<close>

text \<open>
  A task is \<open>quick_sort\<close> bound to \<open>(begin, end)\<close>.  Running it yields the new content of
  the array and the tasks it pushed, in push order.
\<close>

type_synonym range_task = "nat \<times> nat"

definition quick_sort ::
  "'a std_partition \<Rightarrow> 'a std_sort \<Rightarrow> nat \<Rightarrow> ('a \<Rightarrow> 'a \<Rightarrow> bool) \<Rightarrow> range_task \<Rightarrow> 'a list
     \<Rightarrow> 'a list \<times> range_task list" where
  "quick_sort part srt chunk_size cmp tk a =
     (let b = fst tk; e = snd tk; sz = e - b in
      if sz \<le> 1 then (a, [])
      else if sz > chunk_size then
        (let pivot = a ! (b + sz div 2);
             r1 = partition_range part (\<lambda>em. cmp em pivot) a b e;
             middle1 = snd r1;
             r2 = partition_range part (\<lambda>em. \<not> cmp pivot em) (fst r1) middle1 e;
             middle2 = snd r2
         in (fst r2, [(b, middle1), (middle2, e)]))
      else (sort_range srt cmp a b e, []))"

text \<open>
  \<open>quick_sort\<close> is a block-scope \<open>static\<close>: it is initialised by the first call of
  \<open>mt::sort\<close> (per template instantiation) and captures \<open>chunk_size\<close>, \<open>pool\<close> and
  \<open>cmp\<close> of that call by reference.  The program state records which invocation's
  locals the closure refers to; invocations are numbered by \<open>calls\<close>.  Only the running
  invocation's locals are alive, so reading a capture of any other invocation is a
  dangling reference.  The test \<open>sz <= 1\<close> comes before the first read of a capture.
\<close>

record prog =
  quick_sort_static :: "nat option"
  calls :: nat

definition initial_prog :: prog where
  "initial_prog = \<lparr>quick_sort_static = None, calls = 0\<rparr>"

definition invoke_quick_sort ::
  "'a std_partition \<Rightarrow> 'a std_sort \<Rightarrow> nat \<Rightarrow> nat \<Rightarrow> nat \<Rightarrow> ('a \<Rightarrow> 'a \<Rightarrow> bool) \<Rightarrow> range_task \<Rightarrow> 'a list
     \<Rightarrow> fault + ('a list \<times> range_task list)" where
  "invoke_quick_sort part srt captured frame chunk_size cmp tk a =
     (if snd tk - fst tk \<le> 1 then Inr (a, [])
      else if captured \<noteq> frame then Inl DanglingReference
      else Inr (quick_sort part srt chunk_size cmp tk a))"

subsection \<open>mt::sort\<close>

text \<open>
  \<open>chunk_size\<close> is computed in \<open>size_t\<close> arithmetic, so \<open>threads_amount * 8\<close> wraps; the
  division comes before the pool is built.  The call then builds the pool, initialises
  the static closure if no earlier call has, pushes the root task and leaves through the
  destructor of the pool: it returns when that destructor has returned.
\<close>

definition sort_exec ::
  "'a std_partition \<Rightarrow> 'a std_sort \<Rightarrow> prog \<Rightarrow> 'a list \<Rightarrow> ('a \<Rightarrow> 'a \<Rightarrow> bool) \<Rightarrow> size_t
     \<Rightarrow> range_task \<Rightarrow> 'a list \<Rightarrow> fault + ('a list \<times> range_task list)" where
  "sort_exec part srt st a cmp threads_amount =
     invoke_quick_sort part srt
       (case quick_sort_static st of None \<Rightarrow> calls st | Some c \<Rightarrow> c) (calls st)
       (length a div unat (threads_amount * 8)) cmp"

definition sort_return :: "prog \<Rightarrow> fault + 'a list \<Rightarrow> fault + (prog \<times> 'a list)" where
  "sort_return st r =
     (case r of Inl f \<Rightarrow> Inl f
      | Inr a' \<Rightarrow> Inr (\<lparr>quick_sort_static =
                           Some (case quick_sort_static st of None \<Rightarrow> calls st | Some c \<Rightarrow> c),
                         calls = Suc (calls st)\<rparr>, a'))"

text \<open>
  \<open>pool.push(quick_sort, begin, end)\<close> queues the closure bound to the two iterators:
  a task with the callable \<open>quick_sort\<close> (number 0) and the arguments \<open>begin\<close> and \<open>end\<close>.
  What a task does when a worker runs it is \<open>exec\<close>, the body of the closure: it works
  on the array and yields the ranges it pushes, which the worker then pushes one by one.
  \<open>body_entered\<close> tells whether a step of the pool is one in which a worker has taken a
  task from the queue, and which; the work of the body on the array is placed in that
  step (tasks in flight work on disjoint ranges), its pushes in the steps that follow.
  A fault in the body, or the use of a destroyed member by any thread, ends the run.
\<close>

definition bind_quick_sort :: "range_task \<Rightarrow> task" where
  "bind_quick_sort tk = Task 0 [fst tk, snd tk] [] False"

definition bound_range :: "task \<Rightarrow> range_task" where
  "bound_range f = (case args f of [b, e] \<Rightarrow> (b, e) | _ \<Rightarrow> (0, 0))"

definition body_entered :: "event \<Rightarrow> pool \<Rightarrow> pool \<Rightarrow> (nat \<times> task) option" where
  "body_entered ev s s' =
     (case ev of
        Worker w c \<Rightarrow>
          if length (started s') = Suc (length (started s)) then Some (w, last (started s'))
          else None
      | _ \<Rightarrow> None)"

definition sort_step ::
  "(range_task \<Rightarrow> 'a list \<Rightarrow> fault + ('a list \<times> range_task list)) \<Rightarrow> event \<Rightarrow> pool \<times> 'a list
     \<Rightarrow> (fault + pool \<times> 'a list) option" where
  "sort_step exec ev sa =
     (case step ev (fst sa) of
        None \<Rightarrow> None
      | Some s' \<Rightarrow>
          (case failure s' of
             Some e \<Rightarrow> Some (Inl e)
           | None \<Rightarrow>
               (case body_entered ev (fst sa) s' of
                  None \<Rightarrow> Some (Inr (s', snd sa))
                | Some (w, f) \<Rightarrow>
                    (case exec (bound_range f) (snd sa) of
                       Inl e \<Rightarrow> Some (Inl e)
                     | Inr (a', pushed) \<Rightarrow>
                         Some (Inr (s'\<lparr>threads := (threads s')
                                      [w := WRunning f (map bind_quick_sort pushed)]\<rparr>, a'))))))"

fun sort_run ::
  "(range_task \<Rightarrow> 'a list \<Rightarrow> fault + ('a list \<times> range_task list)) \<Rightarrow> event list \<Rightarrow> pool \<times> 'a list
     \<Rightarrow> (fault + pool \<times> 'a list) option" where
  "sort_run exec [] sa = Some (Inr sa)"
| "sort_run exec (ev # evs) sa =
     (case sort_step exec ev sa of
        None \<Rightarrow> None
      | Some (Inl f) \<Rightarrow> Some (Inl f)
      | Some (Inr sa') \<Rightarrow> sort_run exec evs sa')"

definition sort_pool :: "size_t \<Rightarrow> 'a list \<Rightarrow> pool \<times> 'a list" where
  "sort_pool threads_amount a =
     (thread_pool (unat threads_amount) [Push (bind_quick_sort (0, length a))], a)"

inductive mt_sort ::
  "'a std_partition \<Rightarrow> 'a std_sort \<Rightarrow> prog \<Rightarrow> 'a list \<Rightarrow> ('a \<Rightarrow> 'a \<Rightarrow> bool) \<Rightarrow> size_t
     \<Rightarrow> fault + (prog \<times> 'a list) \<Rightarrow> bool"
  for part srt st a cmp threads_amount where
  sort_div0: "threads_amount * 8 = 0 \<Longrightarrow> mt_sort part srt st a cmp threads_amount (Inl DivisionByZero)"
| sort_fault: "threads_amount * 8 \<noteq> 0 \<Longrightarrow>
     sort_run (sort_exec part srt st a cmp threads_amount) evs (sort_pool threads_amount a)
       = Some (Inl f) \<Longrightarrow>
     mt_sort part srt st a cmp threads_amount (Inl f)"
| sort_returns: "threads_amount * 8 \<noteq> 0 \<Longrightarrow>
     sort_run (sort_exec part srt st a cmp threads_amount) evs (sort_pool threads_amount a)
       = Some (Inr (s, a')) \<Longrightarrow>
     program s = [] \<Longrightarrow>
     mt_sort part srt st a cmp threads_amount (sort_return st (Inr a'))"

subsection \<open>The tasks of one sort, without the threads\<close>

text \<open>
  What is left of the pool when only the tasks are looked at: the queue is FIFO, a
  worker that is free takes the front task (\<open>take\<close>), at most \<open>workers\<close> tasks are in
  flight, and a task in flight completes at any time (\<open>finish\<close>), which is when its
  effect on the array and its pushes become visible.  Tasks in flight work on disjoint
  ranges.  This relation says which tasks a sort gives rise to, whatever the threads do;
  it says nothing about the call returning.
\<close>

record 'a sched =
  queue :: "range_task list"
  running :: "range_task list"
  arr :: "'a list"

definition remove_nth :: "nat \<Rightarrow> 'b list \<Rightarrow> 'b list" where
  "remove_nth i xs = take i xs @ drop (Suc i) xs"

inductive pool_step ::
  "nat \<Rightarrow> (range_task \<Rightarrow> 'a list \<Rightarrow> fault + ('a list \<times> range_task list)) \<Rightarrow> 'a sched \<Rightarrow> fault + 'a sched \<Rightarrow> bool"
  for workers exec where
  take: "queue s = tk # q \<Longrightarrow> length (running s) < workers \<Longrightarrow>
         pool_step workers exec s (Inr (s\<lparr>queue := q, running := running s @ [tk]\<rparr>))"
| finish: "i < length (running s) \<Longrightarrow> exec (running s ! i) (arr s) = Inr (a', pushed) \<Longrightarrow>
         pool_step workers exec s
           (Inr \<lparr>queue = queue s @ pushed, running = remove_nth i (running s), arr = a'\<rparr>)"
| crash: "i < length (running s) \<Longrightarrow> exec (running s ! i) (arr s) = Inl f \<Longrightarrow>
         pool_step workers exec s (Inl f)"

text \<open>Instances of the two library parameters, used to run the model.\<close>

definition stable_partition :: "'a std_partition" where
  "stable_partition P xs = (filter P xs @ filter (\<lambda>x. \<not> P x) xs, length (filter P xs))"

fun insert_by :: "('a \<Rightarrow> 'a \<Rightarrow> bool) \<Rightarrow> 'a \<Rightarrow> 'a list \<Rightarrow> 'a list" where
  "insert_by cmp x [] = [x]"
| "insert_by cmp x (y # ys) = (if cmp x y then x # y # ys else y # insert_by cmp x ys)"

definition insertion_sort :: "'a std_sort" where
  "insertion_sort cmp xs = foldr (insert_by cmp) xs []"

subsection \<open>Notions used to state and prove the properties of the sort\<close>

text \<open>
  \<open>covers k tk\<close>: position \<open>k\<close> lies in the range of task \<open>tk\<close>.  \<open>task_inv\<close> is the
  invariant of a sort in progress: the pending tasks lie inside the array, no position
  belongs to two of them, and two positions that are not inside one common pending task
  are already in their final relative order.  \<open>local_effect\<close> is what one run of
  \<open>quick_sort\<close> on \<open>[b, e)\<close> does to that range; \<open>sched_measure\<close> bounds the work left.
\<close>

definition covers :: "nat \<Rightarrow> range_task \<Rightarrow> bool" where
  "covers k tk \<longleftrightarrow> fst tk \<le> k \<and> k < snd tk"

definition task_weight :: "range_task \<Rightarrow> nat" where
  "task_weight c = 4 * (snd c - fst c) + 2"

definition local_effect ::
  "('a \<Rightarrow> 'a \<Rightarrow> bool) \<Rightarrow> nat \<Rightarrow> nat \<Rightarrow> 'a list \<Rightarrow> range_task list \<Rightarrow> bool" where
  "local_effect cmp b e ys cs \<longleftrightarrow>
     length ys = e - b \<and>
     (\<forall>c \<in> set cs. b \<le> fst c \<and> fst c \<le> snd c \<and> snd c \<le> e) \<and>
     (\<forall>k. length (filter (covers k) cs) \<le> 1) \<and>
     (\<forall>i j. i < j \<and> j < e - b \<longrightarrow>
        \<not> cmp (ys ! j) (ys ! i) \<or> (\<exists>c \<in> set cs. covers (b + i) c \<and> covers (b + j) c)) \<and>
     sum_list (map task_weight cs) \<le> 4 * (e - b)"

definition task_inv :: "('a \<Rightarrow> 'a \<Rightarrow> bool) \<Rightarrow> nat \<Rightarrow> range_task multiset \<Rightarrow> 'a list \<Rightarrow> bool" where
  "task_inv cmp n M a \<longleftrightarrow>
     length a = n \<and>
     (\<forall>tk \<in># M. fst tk \<le> snd tk \<and> snd tk \<le> n) \<and>
     (\<forall>k. size (filter_mset (covers k) M) \<le> 1) \<and>
     (\<forall>i j. i < j \<and> j < n \<longrightarrow>
        \<not> cmp (a ! j) (a ! i) \<or> (\<exists>tk \<in># M. covers i tk \<and> covers j tk))"

definition tasks_of :: "'a sched \<Rightarrow> range_task multiset" where
  "tasks_of s = mset (queue s) + mset (running s)"

definition sched_inv :: "('a \<Rightarrow> 'a \<Rightarrow> bool) \<Rightarrow> 'a list \<Rightarrow> 'a sched \<Rightarrow> bool" where
  "sched_inv cmp S s \<longleftrightarrow>
     mset (arr s) = mset S \<and> task_inv cmp (length S) (tasks_of s) (arr s)"

definition sched_measure :: "'a sched \<Rightarrow> nat" where
  "sched_measure s =
     sum_list (map task_weight (queue s)) + sum_list (map (\<lambda>c. task_weight c - 1) (running s))"

definition pool_reach ::
  "nat \<Rightarrow> (range_task \<Rightarrow> 'a list \<Rightarrow> fault + ('a list \<times> range_task list)) \<Rightarrow> 'a sched \<Rightarrow> 'a sched \<Rightarrow> bool" where
  "pool_reach workers exec = (\<lambda>s s'. pool_step workers exec s (Inr s'))\<^sup>*\<^sup>*"

text \<open>
  Two sets of states of the pool of a sort.  \<open>root_pending root\<close>: the root task has not
  been taken by a worker and no worker has left \<open>worker()\<close>.  \<open>join_blocked\<close>: the members
  have been destroyed, the owner is in the destructor of \<open>threads\<close>, and a worker is
  still in \<open>queue_cv.wait\<close>.
\<close>

definition root_pending :: "task \<Rightarrow> pool \<Rightarrow> bool" where
  "root_pending root s \<longleftrightarrow>
     started s = [] \<and> failure s = None \<and> threads s \<noteq> [] \<and>
     (\<forall>x \<in> set (threads s). x = WStart \<or> x = WBlocking \<or> x = WWaiting \<or> x = WWoken) \<and>
     (client s \<noteq> CReady \<longrightarrow> (\<exists>rest. program s = Wait # rest)) \<and>
     ((program s = Push root # destructor \<and> task_queue s = [] \<and>
         \<not> shutdown_request s \<and> \<not> destroyed s) \<or>
      ((program s = destructor \<or> program s = [SetShutdown, NotifyAll, DestroyMembers, Join] \<or>
        program s = [NotifyAll, DestroyMembers, Join] \<or> program s = [DestroyMembers, Join]) \<and>
         task_queue s = [root] \<and> \<not> destroyed s) \<or>
      (program s = [Join] \<and> destroyed s))"

definition join_blocked :: "pool \<Rightarrow> bool" where
  "join_blocked s \<longleftrightarrow>
     destroyed s \<and> program s = [Join] \<and> client s = CReady \<and> failure s = None \<and>
     (\<forall>x \<in> set (threads s). x = WExited \<or> x = WCrashed \<or> x = WWaiting \<or> x = WWoken) \<and>
     (\<exists>x \<in> set (threads s). x = WWaiting \<or> x = WWoken)"

subsection \<open>Chunk boundaries of the parallel unique\<close>

text \<open>
  \<open>chunk_start n ps t k\<close> is where chunk \<open>k\<close> begins when \<open>n\<close> elements are cut into \<open>t\<close>
  chunks of size \<open>ps\<close>, the last one taking the remainder; chunk \<open>k\<close> ends where chunk
  \<open>k + 1\<close> begins.
\<close>

definition chunk_start :: "nat \<Rightarrow> nat \<Rightarrow> nat \<Rightarrow> nat \<Rightarrow> nat" where
  "chunk_start n ps t k = (if t \<le> k then n else ps * k)"

subsection \<open>Notions used to state and prove the properties of the pool\<close>

text \<open>
  \<open>tset\<close> is the multiset of thread states with a woken thread counted as waiting.
  \<open>never_throws\<close>: neither the task nor a task it spawns, at any depth, throws.
  \<open>user_call\<close>: the calls a user of the pool makes (\<open>push\<close> and \<open>wait\<close>).  \<open>in_flight\<close>,
  \<open>busy\<close>, \<open>ended\<close> and \<open>awake\<close> classify thread states; the \<open>inv_\<close> predicates are the
  invariants of the pool: what \<open>active\<close> counts, where every submitted task is, which
  part of its life the pool is in, and that a queued task has a worker that will come to
  it.  \<open>work\<close> bounds the number of steps the workers can still take: \<open>task_work\<close> for a
  queued task, \<open>thread_work\<close> for what a thread has in hand.
\<close>

fun norm_w :: "wstate \<Rightarrow> wstate" where
  "norm_w WWoken = WWaiting"
| "norm_w w = w"

definition tset :: "pool \<Rightarrow> wstate multiset" where
  "tset s = image_mset norm_w (mset (threads s))"

fun never_throws :: "task \<Rightarrow> bool" where
  "never_throws (Task c a sp th) \<longleftrightarrow> \<not> th \<and> (\<forall>g \<in> set sp. never_throws g)"

fun user_call :: "cmd \<Rightarrow> bool" where
  "user_call (Push f) = True"
| "user_call Wait = True"
| "user_call c = False"

fun harmless :: "cmd \<Rightarrow> bool" where
  "harmless (Push f) = never_throws f"
| "harmless c = True"

fun in_flight :: "wstate \<Rightarrow> task multiset" where
  "in_flight (WRunning f ps) = {#f#}"
| "in_flight w = {#}"

fun busy :: "wstate \<Rightarrow> bool" where
  "busy (WRunning f ps) = True"
| "busy WCrashed = True"
| "busy w = False"

fun ended :: "wstate \<Rightarrow> bool" where
  "ended WExited = True"
| "ended WCrashed = True"
| "ended w = False"

definition inv_count :: "nat \<Rightarrow> pool \<Rightarrow> bool" where
  "inv_count n s \<longleftrightarrow> size (tset s) = n \<and> active s = size (filter_mset busy (tset s))"

definition inv_logs :: "pool \<Rightarrow> bool" where
  "inv_logs s \<longleftrightarrow>
     mset (submitted s) = mset (task_queue s) + mset (started s) + mset (discarded s) \<and>
     mset (started s) = mset (finished s) + (\<Sum>w \<in># tset s. in_flight w) \<and>
     (\<not> destroyed s \<longrightarrow> discarded s = [])"

fun safe_w :: "wstate \<Rightarrow> bool" where
  "safe_w (WRunning f ps) \<longleftrightarrow> \<not> throws f \<and> (\<forall>p \<in> set ps. never_throws p)"
| "safe_w WCrashed \<longleftrightarrow> False"
| "safe_w w \<longleftrightarrow> True"

definition inv_safe :: "pool \<Rightarrow> bool" where
  "inv_safe s \<longleftrightarrow>
     (\<forall>f \<in> set (task_queue s). never_throws f) \<and> (\<forall>w \<in># tset s. safe_w w) \<and>
     list_all harmless (program s)"

definition before_join :: "pool \<Rightarrow> bool" where
  "before_join s \<longleftrightarrow>
     (\<exists>u. list_all user_call u \<and> program s = u @ destructor \<and>
          \<not> shutdown_request s \<and> \<not> destroyed s) \<or>
     (program s = [SetShutdown, NotifyAll, DestroyMembers, Join] \<and>
          \<not> shutdown_request s \<and> \<not> destroyed s) \<or>
     (program s = [NotifyAll, DestroyMembers, Join] \<and> shutdown_request s \<and> \<not> destroyed s) \<or>
     (program s = [DestroyMembers, Join] \<and> shutdown_request s \<and> \<not> destroyed s) \<or>
     (program s = [Join] \<and> shutdown_request s \<and> destroyed s)"

definition inv_phase :: "pool \<Rightarrow> bool" where
  "inv_phase s \<longleftrightarrow>
     (client s \<noteq> CReady \<longrightarrow> (\<exists>rest. program s = Wait # rest)) \<and>
     (before_join s \<or>
      (program s = [] \<and> shutdown_request s \<and> destroyed s \<and> (\<forall>w \<in># tset s. ended w))) \<and>
     (\<not> shutdown_request s \<longrightarrow> WExited \<notin># tset s) \<and>
     (failure s \<noteq> None \<longrightarrow> destroyed s)"

fun awake :: "wstate \<Rightarrow> bool" where
  "awake WStart = True"
| "awake WWoken = True"
| "awake (WRunning f ps) = True"
| "awake w = False"

definition inv_live :: "pool \<Rightarrow> bool" where
  "inv_live s \<longleftrightarrow>
     (WBlocking \<in> set (threads s) \<longrightarrow> task_queue s = []) \<and>
     (task_queue s \<noteq> [] \<longrightarrow> (\<exists>w \<in> set (threads s). awake w))"






section \<open>Properties of parallel unique\<close>

lemma launch_empty:
  "launch 0 t js ([], ths) = ([], ths @ replicate (length js) 0)"
proof (induction js arbitrary: ths)
  case Nil
  then show ?case by simp
next
  case (Cons j js)
  have "std_unique ([]::'a list) (chunk_begin 0 j) (chunk_end 0 0 t j) = ([], 0)"
    by (simp add: std_unique_def chunk_begin_def chunk_end_def)
  then show ?case using Cons.IH [of "ths @ [0]"]
    by (simp add: replicate_app_Cons_same)
qed

lemma unique_empty_many:
  assumes "2 \<le> unat t"
  shows "unique [] p t = Inl OutOfRange"
proof -
  have t0: "t \<noteq> 0" using assms by auto
  obtain rest where up: "[Suc 0..<unat t] = Suc 0 # rest"
    using upt_conv_Cons [of "Suc 0" "unat t"] assms by auto
  show ?thesis
    using t0 by (simp add: unique_def launch_empty up chunk_begin_def Let_def)
qed

text \<open>
  C7 as stated: \<^emph>\<open>unique applied to an empty range returns the range's begin and performs
  no concurrent executions and no element accesses.\<close>  The code has no test for an empty
  range: with one thread it launches one execution (over the empty chunk), and with two
  threads the merge loop evaluates \<open>p(*_begin, *(last - 1))\<close> on the empty range.
\<close>

theorem unique_empty_counterexample:
  "unique ([] :: nat list) (=) 1 = Inr \<lparr>elems = [], new_end = 0, executions = 1\<rparr> \<and>
   unique ([] :: nat list) (=) 2 = Inl OutOfRange"
  by (simp add: unique_def std_unique_def chunk_begin_def chunk_end_def upt_conv_Cons)

text \<open>
  C7, amended: on an empty range \<open>unique\<close> launches as many executions as there are
  threads; with one thread it returns the range's begin (a zero-length result) and leaves
  the range as it is, having launched one execution over the empty chunk.  (In an empty
  range every element access is out of range, so a result without fault has accessed no
  element.)
\<close>

theorem unique_empty_single_thread:
  "unique [] p 1 = Inr \<lparr>elems = [], new_end = 0, executions = 1\<rparr>"
  by (simp add: unique_def std_unique_def chunk_begin_def chunk_end_def)

text \<open>
  C2: \<^emph>\<open>the prefix up to the returned end contains exactly one representative of each run
  of \<open>p\<close>-equivalent elements.\<close>  The chunk executions call \<open>std::unique(_begin, _end)\<close>
  without \<open>p\<close>; only the merge loop uses \<open>p\<close>.  For the range \<open>[0, 1]\<close>, sorted, with
  \<open>p x y \<longleftrightarrow> x div 2 = y div 2\<close> and one thread, both elements survive although they are
  \<open>p\<close>-equivalent, and the returned length is 2 where the range has one \<open>p\<close>-class.  The
  same range with two threads meets the pair in the merge loop and is compacted to
  length 1.  With \<open>operator==\<close> for \<open>p\<close> the code does what the sentence says, see the
  last section.
\<close>

theorem unique_ignores_predicate_in_chunks:
  "unique [0, 1 :: nat] (\<lambda>x y. x div 2 = y div 2) 1 =
     Inr \<lparr>elems = [0, 1], new_end = 2, executions = 1\<rparr> \<and>
   unique [0, 1 :: nat] (\<lambda>x y. x div 2 = y div 2) 2 =
     Inr \<lparr>elems = [0, 1], new_end = 1, executions = 2\<rparr>"
  by code_simp

section \<open>Properties of parallel sort\<close>

subsection \<open>Ranges\<close>

lemma length_subrange: "e \<le> length a \<Longrightarrow> length (subrange a b e) = e - b"
  by (simp add: subrange_def)

lemma subrange_decomp:
  assumes "b \<le> e" "e \<le> length a"
  shows "take b a @ subrange a b e @ drop e a = a"
proof -
  have "drop e a = drop (e - b) (drop b a)" using assms by simp
  then have "subrange a b e @ drop e a = drop b a"
    unfolding subrange_def by (metis append_take_drop_id)
  then show ?thesis by simp
qed

lemma length_put_subrange:
  "b \<le> e \<Longrightarrow> e \<le> length a \<Longrightarrow> length ys = e - b \<Longrightarrow> length (put_subrange a b e ys) = length a"
  by (simp add: put_subrange_def)

lemma mset_put_subrange:
  assumes "b \<le> e" "e \<le> length a" "mset ys = mset (subrange a b e)"
  shows "mset (put_subrange a b e ys) = mset a"
proof -
  have "mset a = mset (take b a @ subrange a b e @ drop e a)"
    using subrange_decomp [OF assms(1,2)] by simp
  then show ?thesis using assms(3) by (simp add: put_subrange_def)
qed

lemma nth_put_subrange:
  assumes "b \<le> e" "e \<le> length a" "length ys = e - b" "k < length a"
  shows "put_subrange a b e ys ! k = (if b \<le> k \<and> k < e then ys ! (k - b) else a ! k)"
proof -
  consider "k < b" | "b \<le> k" "k < e" | "e \<le> k" by linarith
  then show ?thesis
  proof cases
    case 1
    then show ?thesis using assms by (simp add: put_subrange_def nth_append)
  next
    case 2
    then have "k - b < e - b" by simp
    then show ?thesis using 2 assms by (simp add: put_subrange_def nth_append)
  next
    case 3
    then have "k - b - (e - b) = k - e" "\<not> k - b < e - b" "\<not> k < b" "e + (k - e) = k"
      using assms by simp_all
    then show ?thesis using 3 assms by (simp add: put_subrange_def nth_append)
  qed
qed

lemma subrange_put_tail:
  assumes "b \<le> e" "e \<le> length a" "length ys = e - b" "m \<le> e - b"
  shows "subrange (put_subrange a b e ys) (b + m) e = drop m ys"
  using assms by (simp add: subrange_def put_subrange_def)

lemma put_subrange_tail:
  assumes "b \<le> e" "e \<le> length a" "length ys = e - b" "m \<le> e - b"
  shows "put_subrange (put_subrange a b e ys) (b + m) e zs = put_subrange a b e (take m ys @ zs)"
  using assms by (simp add: put_subrange_def)

lemma three_way_order:
  assumes swo: "strict_weak_order cmp"
    and L: "\<forall>x \<in> set L. cmp x p"
    and M: "\<forall>x \<in> set M. \<not> cmp x p \<and> \<not> cmp p x"
    and R: "\<forall>x \<in> set R. \<not> cmp x p \<and> cmp p x"
    and ij: "i < j" "j < length (L @ M @ R)"
    and out: "\<not> j < length L" "\<not> length L + length M \<le> i"
  shows "\<not> cmp ((L @ M @ R) ! j) ((L @ M @ R) ! i)"
proof -
  have tr: "\<And>x y z. cmp x y \<Longrightarrow> cmp y z \<Longrightarrow> cmp x z"
    using swo unfolding strict_weak_order_def by blast
  have eq: "\<And>x y z. \<not> cmp x y \<Longrightarrow> \<not> cmp y x \<Longrightarrow> \<not> cmp y z \<Longrightarrow> \<not> cmp z y \<Longrightarrow> \<not> cmp z x"
    using swo unfolding strict_weak_order_def by blast
  let ?ys = "L @ M @ R"
  have yj: "?ys ! j \<in> set M \<union> set R"
  proof -
    have "?ys ! j = (M @ R) ! (j - length L)" using out(1) by (simp add: nth_append)
    moreover have "j - length L < length (M @ R)" using ij(2) out(1) by simp
    ultimately have "?ys ! j \<in> set (M @ R)" by (metis nth_mem)
    then show ?thesis by simp
  qed
  have yi: "?ys ! i \<in> set L \<union> set M"
  proof -
    have "i < length (L @ M)" using out(2) by simp
    then have "(L @ M) ! i \<in> set (L @ M)" by (rule nth_mem)
    moreover have "?ys ! i = (L @ M) ! i"
      using \<open>i < length (L @ M)\<close> by (metis append_assoc nth_append)
    ultimately show ?thesis by simp
  qed
  show ?thesis
  proof (cases "?ys ! i \<in> set L")
    case True
    then have "cmp (?ys ! i) p" using L by blast
    moreover have "\<not> cmp (?ys ! j) p" using yj M R by blast
    ultimately show ?thesis using tr by blast
  next
    case False
    then have iM: "?ys ! i \<in> set M" using yi by blast
    show ?thesis
    proof (cases "?ys ! j \<in> set M")
      case True
      then show ?thesis using iM M eq by blast
    next
      case False
      then have "cmp p (?ys ! j)" using yj R by blast
      moreover have "\<not> cmp p (?ys ! i)" using iM M by blast
      ultimately show ?thesis using tr by blast
    qed
  qed
qed

lemma partition_okD:
  assumes "partition_ok part"
  shows "mset (fst (part P xs)) = mset xs" "snd (part P xs) \<le> length xs"
    "\<forall>x \<in> set (take (snd (part P xs)) (fst (part P xs))). P x"
    "\<forall>x \<in> set (drop (snd (part P xs)) (fst (part P xs))). \<not> P x"
  using assms unfolding partition_ok_def by blast+

lemma partition_twice:
  fixes cmp :: "'a \<Rightarrow> 'a \<Rightarrow> bool"
  assumes irr: "\<not> cmp p p"
    and ok: "partition_ok part"
    and p: "p \<in> set xs"
  defines "r1 \<equiv> part (\<lambda>em. cmp em p) xs"
  defines "r2 \<equiv> part (\<lambda>em. \<not> cmp p em) (drop (snd r1) (fst r1))"
  defines "L \<equiv> take (snd r1) (fst r1)"
  defines "M \<equiv> take (snd r2) (fst r2)"
  defines "R \<equiv> drop (snd r2) (fst r2)"
  shows "mset (L @ M @ R) = mset xs"
    and "length L = snd r1" and "length M = snd r2"
    and "L @ M @ R = L @ fst r2"
    and "length (L @ M @ R) = length xs"
    and "\<forall>x \<in> set L. cmp x p"
    and "\<forall>x \<in> set M. \<not> cmp x p \<and> \<not> cmp p x"
    and "\<forall>x \<in> set R. \<not> cmp x p \<and> cmp p x"
    and "p \<in> set M"
proof -
  have m1: "mset (fst r1) = mset xs" and l1: "snd r1 \<le> length xs"
    using partition_okD [OF ok] unfolding r1_def by blast+
  have len1: "length (fst r1) = length xs" using m1 by (rule mset_eq_length)
  have m2: "mset (fst r2) = mset (drop (snd r1) (fst r1))"
    and l2: "snd r2 \<le> length (drop (snd r1) (fst r1))"
    using partition_okD [OF ok] unfolding r2_def by blast+
  have len2: "length (fst r2) = length xs - snd r1"
    using mset_eq_length [OF m2] len1 by simp
  show LMR: "L @ M @ R = L @ fst r2" by (simp add: M_def R_def)
  have "mset (L @ fst r2) = mset (take (snd r1) (fst r1)) + mset (drop (snd r1) (fst r1))"
    using m2 by (simp add: L_def)
  also have "\<dots> = mset (take (snd r1) (fst r1) @ drop (snd r1) (fst r1))"
    by (simp only: mset_append)
  also have "\<dots> = mset (fst r1)" by (simp only: append_take_drop_id)
  finally have "mset (L @ fst r2) = mset (fst r1)" .
  then show ms: "mset (L @ M @ R) = mset xs" using m1 LMR by simp
  show "length L = snd r1" using l1 len1 by (simp add: L_def)
  show "length M = snd r2" using l2 len2 len1 by (simp add: M_def)
  show "length (L @ M @ R) = length xs" using ms by (rule mset_eq_length)
  show Lp: "\<forall>x \<in> set L. cmp x p"
    unfolding L_def r1_def by (rule partition_okD(3) [OF ok])
  have tail: "\<forall>x \<in> set (fst r2). \<not> cmp x p"
  proof -
    have "set (fst r2) = set (drop (snd r1) (fst r1))" using m2 by (rule mset_eq_setD)
    moreover have "\<forall>x \<in> set (drop (snd r1) (fst r1)). \<not> cmp x p"
      unfolding r1_def by (rule partition_okD(4) [OF ok])
    ultimately show ?thesis by blast
  qed
  have M_sub: "set M \<subseteq> set (fst r2)" unfolding M_def by (rule set_take_subset)
  have R_sub: "set R \<subseteq> set (fst r2)" unfolding R_def by (rule set_drop_subset)
  have Mp: "\<forall>x \<in> set M. \<not> cmp p x"
    unfolding M_def r2_def by (rule partition_okD(3) [OF ok])
  have "\<forall>x \<in> set R. \<not> \<not> cmp p x"
    unfolding R_def r2_def by (rule partition_okD(4) [OF ok])
  then have Rp: "\<forall>x \<in> set R. cmp p x" by blast
  show "\<forall>x \<in> set M. \<not> cmp x p \<and> \<not> cmp p x" using Mp tail M_sub by blast
  show "\<forall>x \<in> set R. \<not> cmp x p \<and> cmp p x" using Rp tail R_sub by blast
  have "set (L @ M @ R) = set xs" using ms by (rule mset_eq_setD)
  then have "p \<in> set L \<union> set M \<union> set R" using p by auto
  then show "p \<in> set M" using Lp Rp irr by blast
qed

lemma strict_weak_order_irrefl: "strict_weak_order cmp \<Longrightarrow> \<not> cmp x x"
  unfolding strict_weak_order_def by blast

lemma quick_sort_partition_eq:
  fixes cmp :: "'a \<Rightarrow> 'a \<Rightarrow> bool"
  assumes be: "b \<le> e" "e \<le> length a" and big: "1 < e - b" "chunk < e - b"
    and ok: "partition_ok part"
  defines "p \<equiv> a ! (b + (e - b) div 2)"
  defines "r1 \<equiv> part (\<lambda>em. cmp em p) (subrange a b e)"
  defines "r2 \<equiv> part (\<lambda>em. \<not> cmp p em) (drop (snd r1) (fst r1))"
  shows "quick_sort part srt chunk cmp (b, e) a =
           (put_subrange a b e (take (snd r1) (fst r1) @ fst r2),
            [(b, b + snd r1), (b + snd r1 + snd r2, e)])"
proof -
  have len1: "length (fst r1) = e - b"
    using mset_eq_length [OF partition_okD(1) [OF ok]] be unfolding r1_def
    by (simp add: length_subrange)
  have m1: "snd r1 \<le> e - b"
    using partition_okD(2) [OF ok] be unfolding r1_def by (metis length_subrange)
  have sl: "subrange (put_subrange a b e (fst r1)) (b + snd r1) e = drop (snd r1) (fst r1)"
    using be len1 m1 by (rule subrange_put_tail)
  have sp: "put_subrange (put_subrange a b e (fst r1)) (b + snd r1) e (fst r2) =
            put_subrange a b e (take (snd r1) (fst r1) @ fst r2)"
    using be len1 m1 by (rule put_subrange_tail)
  have "partition_range part (\<lambda>em. cmp em p) a b e = (put_subrange a b e (fst r1), b + snd r1)"
    by (simp add: partition_range_def r1_def Let_def)
  moreover have "partition_range part (\<lambda>em. \<not> cmp p em) (put_subrange a b e (fst r1)) (b + snd r1) e
        = (put_subrange a b e (take (snd r1) (fst r1) @ fst r2), b + snd r1 + snd r2)"
    unfolding r2_def
    by (simp add: partition_range_def sl put_subrange_tail [OF be len1 m1] Let_def)
  ultimately show ?thesis
    using big by (simp add: quick_sort_def Let_def p_def)
qed

lemma pivot_in_subrange:
  assumes "b \<le> e" "e \<le> length a" "1 < e - b"
  shows "a ! (b + (e - b) div 2) \<in> set (subrange a b e)"
proof -
  have k: "(e - b) div 2 < length (subrange a b e)"
    using assms by (simp add: length_subrange)
  have "subrange a b e ! ((e - b) div 2) = a ! (b + (e - b) div 2)"
    using assms by (simp add: subrange_def)
  then show ?thesis using nth_mem [OF k] by simp
qed

lemma quick_sort_local:
  assumes swo: "strict_weak_order cmp" and ok: "partition_ok part" and sok: "sort_ok cmp srt"
    and be: "b \<le> e" "e \<le> length a"
  shows "\<exists>ys cs. quick_sort part srt chunk cmp (b, e) a = (put_subrange a b e ys, cs) \<and>
           mset ys = mset (subrange a b e) \<and> local_effect cmp b e ys cs"
proof -
  consider (small) "e - b \<le> 1" | (base) "1 < e - b" "\<not> chunk < e - b"
    | (split) "1 < e - b" "chunk < e - b" by linarith
  then show ?thesis
  proof cases
    case small
    have "put_subrange a b e (subrange a b e) = a"
      using subrange_decomp [OF be] by (simp add: put_subrange_def)
    then have "quick_sort part srt chunk cmp (b, e) a = (put_subrange a b e (subrange a b e), [])"
      using small by (simp add: quick_sort_def)
    moreover have "local_effect cmp b e (subrange a b e) []"
      using small be by (auto simp add: local_effect_def length_subrange)
    ultimately show ?thesis by blast
  next
    case base
    let ?ys = "srt cmp (subrange a b e)"
    have ms: "mset ?ys = mset (subrange a b e)"
      and so: "sorted_wrt (\<lambda>x y. \<not> cmp y x) ?ys"
      using sok unfolding sort_ok_def by blast+
    have len: "length ?ys = e - b"
      using mset_eq_length [OF ms] be by (simp add: length_subrange)
    have "quick_sort part srt chunk cmp (b, e) a = (put_subrange a b e ?ys, [])"
      using base by (simp add: quick_sort_def sort_range_def)
    moreover have "local_effect cmp b e ?ys []"
      using so len by (simp add: local_effect_def sorted_wrt_iff_nth_less)
    ultimately show ?thesis using ms by blast
  next
    case split
    define p where "p = a ! (b + (e - b) div 2)"
    define r1 where "r1 = part (\<lambda>em. cmp em p) (subrange a b e)"
    define r2 where "r2 = part (\<lambda>em. \<not> cmp p em) (drop (snd r1) (fst r1))"
    define L where "L = take (snd r1) (fst r1)"
    define M where "M = take (snd r2) (fst r2)"
    define R where "R = drop (snd r2) (fst r2)"
    have pin: "p \<in> set (subrange a b e)"
      unfolding p_def using be split(1) by (rule pivot_in_subrange)
    have irr: "\<not> cmp p p" using swo by (rule strict_weak_order_irrefl)
    note pt = partition_twice [where cmp = cmp and p = p and part = part
        and xs = "subrange a b e", OF irr ok pin, folded r1_def, folded r2_def,
        folded L_def M_def R_def]
    have qs: "quick_sort part srt chunk cmp (b, e) a =
          (put_subrange a b e (L @ M @ R), [(b, b + snd r1), (b + snd r1 + snd r2, e)])"
      using quick_sort_partition_eq [where cmp = cmp and srt = srt, OF be split ok]
      unfolding p_def [symmetric] r1_def [symmetric] r2_def [symmetric] L_def [symmetric]
      using pt(4) by simp
    have len: "length (L @ M @ R) = e - b" using pt(5) be by (simp add: length_subrange)
    have lens: "length L + length M + length R = e - b" using len by simp
    have Mne: "1 \<le> length M" using pt(9) by (cases M) auto
    let ?cs = "[(b, b + snd r1), (b + snd r1 + snd r2, e)]"
    have bounds: "\<forall>c \<in> set ?cs. b \<le> fst c \<and> fst c \<le> snd c \<and> snd c \<le> e"
      using lens pt(2,3) be by auto
    have disj: "\<forall>k. length (filter (covers k) ?cs) \<le> 1"
      by (simp add: covers_def)
    have weight: "sum_list (map task_weight ?cs) \<le> 4 * (e - b)"
      using lens Mne pt(2,3) be by (simp add: task_weight_def)
    have order: "\<forall>i j. i < j \<and> j < e - b \<longrightarrow>
        \<not> cmp ((L @ M @ R) ! j) ((L @ M @ R) ! i) \<or>
        (\<exists>c \<in> set ?cs. covers (b + i) c \<and> covers (b + j) c)"
    proof (intro allI impI)
      fix i j assume ij: "i < j \<and> j < e - b"
      consider "j < length L" | "length L + length M \<le> i"
        | "\<not> j < length L" "\<not> length L + length M \<le> i" by blast
      then show "\<not> cmp ((L @ M @ R) ! j) ((L @ M @ R) ! i) \<or>
        (\<exists>c \<in> set ?cs. covers (b + i) c \<and> covers (b + j) c)"
      proof cases
        case 1
        then have "covers (b + i) (b, b + snd r1) \<and> covers (b + j) (b, b + snd r1)"
          using ij pt(2) by (simp add: covers_def)
        then show ?thesis by simp
      next
        case 2
        then have "covers (b + i) (b + snd r1 + snd r2, e) \<and> covers (b + j) (b + snd r1 + snd r2, e)"
          using ij pt(2,3) be by (auto simp add: covers_def)
        then show ?thesis by simp
      next
        case 3
        have "\<not> cmp ((L @ M @ R) ! j) ((L @ M @ R) ! i)"
          using swo pt(6,7,8) _ _ 3
        proof (rule three_way_order)
          show "i < j" using ij by simp
          show "j < length (L @ M @ R)" using ij len by simp
        qed
        then show ?thesis by simp
      qed
    qed
    have "local_effect cmp b e (L @ M @ R) ?cs"
      unfolding local_effect_def using len bounds disj order weight by blast
    then show ?thesis using qs pt(1) by blast
  qed
qed

lemma two_covering:
  assumes "T \<in># M" "tk \<in># M" "tk \<noteq> T" "covers k T" "covers k tk"
  shows "2 \<le> size (filter_mset (covers k) M)"
proof -
  obtain A where A: "M = add_mset T A" using assms(1) by (meson multi_member_split)
  then have "tk \<in># A" using assms(2,3) by simp
  then obtain B where "A = add_mset tk B" by (meson multi_member_split)
  then show ?thesis using A assms(4,5) by simp
qed

lemma subrange_elem:
  assumes "x \<in> set (subrange a b e)" "e \<le> length a"
  shows "\<exists>i. b \<le> i \<and> i < e \<and> a ! i = x"
proof -
  obtain m where m: "m < length (subrange a b e)" "subrange a b e ! m = x"
    using assms(1) by (meson in_set_conv_nth)
  have "m < e - b" using m(1) assms(2) by (simp add: length_subrange)
  moreover from this have "subrange a b e ! m = a ! (b + m)"
    using assms(2) by (simp add: subrange_def)
  ultimately have "b \<le> b + m \<and> b + m < e \<and> a ! (b + m) = x" using m(2) by simp
  then show ?thesis by blast
qed

lemma task_inv_finish:
  assumes inv: "task_inv cmp n M a"
    and T: "(b, e) \<in># M"
    and ms: "mset ys = mset (subrange a b e)"
    and loc: "local_effect cmp b e ys cs"
  shows "task_inv cmp n (M - {#(b, e)#} + mset cs) (put_subrange a b e ys)"
proof -
  let ?T = "(b, e)" and ?a' = "put_subrange a b e ys"
  let ?M' = "M - {#?T#} + mset cs"
  have n: "length a = n"
    and bnd: "\<forall>tk \<in># M. fst tk \<le> snd tk \<and> snd tk \<le> n"
    and one: "\<And>k. size (filter_mset (covers k) M) \<le> 1"
    and ord: "\<And>i j. i < j \<Longrightarrow> j < n \<Longrightarrow>
        \<not> cmp (a ! j) (a ! i) \<or> (\<exists>tk \<in># M. covers i tk \<and> covers j tk)"
    using inv unfolding task_inv_def by blast+
  have len: "length ys = e - b"
    and cb: "\<forall>c \<in> set cs. b \<le> fst c \<and> fst c \<le> snd c \<and> snd c \<le> e"
    and cone: "\<And>k. length (filter (covers k) cs) \<le> 1"
    and cord: "\<And>i j. i < j \<Longrightarrow> j < e - b \<Longrightarrow>
        \<not> cmp (ys ! j) (ys ! i) \<or> (\<exists>c \<in> set cs. covers (b + i) c \<and> covers (b + j) c)"
    using loc unfolding local_effect_def by blast+
  have be: "b \<le> e" "e \<le> length a" using bnd T n by auto
  have nth: "\<And>k. k < n \<Longrightarrow> ?a' ! k = (if b \<le> k \<and> k < e then ys ! (k - b) else a ! k)"
    using nth_put_subrange [OF be len] n by blast
  have yset: "set ys = set (subrange a b e)" using ms by (rule mset_eq_setD)
  have inside: "\<And>k. b \<le> k \<Longrightarrow> k < e \<Longrightarrow> \<exists>k'. b \<le> k' \<and> k' < e \<and> a ! k' = ?a' ! k"
  proof -
    fix k assume k: "b \<le> k" "k < e"
    then have "k < n" using be n by simp
    then have "?a' ! k = ys ! (k - b)" using nth k by simp
    moreover have "k - b < length ys" using k len by simp
    ultimately have "?a' ! k \<in> set (subrange a b e)" using yset nth_mem by metis
    then show "\<exists>k'. b \<le> k' \<and> k' < e \<and> a ! k' = ?a' ! k" using subrange_elem be(2) by metis
  qed
  have other: "\<And>tk k. tk \<in># M \<Longrightarrow> tk \<noteq> ?T \<Longrightarrow> b \<le> k \<Longrightarrow> k < e \<Longrightarrow> \<not> covers k tk"
  proof
    fix tk k assume a: "tk \<in># M" "tk \<noteq> ?T" "b \<le> k" "k < e" "covers k tk"
    have "covers k ?T" using a(3,4) by (simp add: covers_def)
    then have "2 \<le> size (filter_mset (covers k) M)"
      using two_covering [OF T a(1,2)] a(5) by blast
    then show False using one [of k] by simp
  qed
  have keep: "\<And>tk. tk \<in># M \<Longrightarrow> tk \<noteq> ?T \<Longrightarrow> tk \<in># ?M'"
    by (simp add: in_diff_count)
  have P1: "length ?a' = n" using length_put_subrange [OF be len] n by simp
  have P2: "\<forall>tk \<in># ?M'. fst tk \<le> snd tk \<and> snd tk \<le> n"
  proof
    fix tk assume "tk \<in># ?M'"
    then consider "tk \<in># M" | "tk \<in> set cs" by (auto dest: in_diffD)
    then show "fst tk \<le> snd tk \<and> snd tk \<le> n"
    proof cases
      case 1 then show ?thesis using bnd by blast
    next
      case 2 then show ?thesis using cb be n by fastforce
    qed
  qed
  have P3: "\<forall>k. size (filter_mset (covers k) ?M') \<le> 1"
  proof
    fix k
    define Y where "Y = size (filter_mset (covers k) (M - {#?T#}))"
    define Z where "Z = length (filter (covers k) cs)"
    have sz: "size (filter_mset (covers k) ?M') = Y + Z"
      unfolding Y_def Z_def by (simp flip: mset_filter)
    have Z1: "Z \<le> 1" unfolding Z_def by (rule cone)
    have "Y + Z \<le> 1"
    proof (cases "covers k ?T")
      case True
      obtain A where A: "M = add_mset ?T A" using T by (meson multi_member_split)
      have "size (filter_mset (covers k) M) = Suc (size (filter_mset (covers k) A))"
        using A True by simp
      then have "size (filter_mset (covers k) A) = 0" using one [of k] by simp
      moreover have "M - {#?T#} = A" using A by simp
      ultimately have "Y = 0" unfolding Y_def by simp
      then show ?thesis using Z1 by simp
    next
      case False
      have "filter (covers k) cs = []"
      proof (rule ccontr)
        assume "filter (covers k) cs \<noteq> []"
        then obtain c where "c \<in> set cs" "covers k c"
          by (metis filter_False)
        then have "covers k ?T" using cb by (fastforce simp add: covers_def)
        then show False using False by simp
      qed
      then have "Z = 0" unfolding Z_def by simp
      moreover have "Y \<le> size (filter_mset (covers k) M)"
        unfolding Y_def by (rule size_mset_mono) (simp add: multiset_filter_mono)
      ultimately show ?thesis using one [of k] by simp
    qed
    then show "size (filter_mset (covers k) ?M') \<le> 1" using sz by simp
  qed
  have P4: "\<forall>i j. i < j \<and> j < n \<longrightarrow>
        \<not> cmp (?a' ! j) (?a' ! i) \<or> (\<exists>tk \<in># ?M'. covers i tk \<and> covers j tk)"
  proof (intro allI impI)
    fix i j assume ij: "i < j \<and> j < n"
    then have i: "i < n" by simp
    let ?goal = "\<not> cmp (?a' ! j) (?a' ! i) \<or> (\<exists>tk \<in># ?M'. covers i tk \<and> covers j tk)"
    consider (both) "b \<le> i" "j < e" | (left) "i < b" | (right) "e \<le> j" by linarith
    then show ?goal
    proof cases
      case both
      then have ai: "?a' ! i = ys ! (i - b)" and aj: "?a' ! j = ys ! (j - b)"
        using nth ij by simp_all
      have "i - b < j - b" "j - b < e - b" using both ij by auto
      then have "\<not> cmp (ys ! (j - b)) (ys ! (i - b)) \<or>
          (\<exists>c \<in> set cs. covers (b + (i - b)) c \<and> covers (b + (j - b)) c)"
        by (rule cord)
      moreover have "b + (i - b) = i" "b + (j - b) = j" using both ij by simp_all
      ultimately show ?thesis using ai aj by auto
    next
      case left
      then have ai: "?a' ! i = a ! i" using nth i by simp
      obtain j' where j': "i < j'" "j' < n" "a ! j' = ?a' ! j"
        "\<And>tk. tk \<in># M \<Longrightarrow> tk \<noteq> ?T \<Longrightarrow> covers j' tk \<Longrightarrow> covers i tk \<Longrightarrow> covers j tk"
      proof (cases "b \<le> j \<and> j < e")
        case True
        then obtain k' where k': "b \<le> k'" "k' < e" "a ! k' = ?a' ! j"
          using inside by blast
        show ?thesis
        proof (rule that [of k'])
          show "i < k'" using left k' by simp
          show "k' < n" using k' be n by simp
          show "a ! k' = ?a' ! j" by (rule k')
          show "\<And>tk. tk \<in># M \<Longrightarrow> tk \<noteq> ?T \<Longrightarrow> covers k' tk \<Longrightarrow> covers i tk \<Longrightarrow> covers j tk"
            using other k' by blast
        qed
      next
        case False
        then have "?a' ! j = a ! j" using nth [of j] ij by auto
        then show ?thesis using that [of j] ij by simp
      qed
      have "\<not> cmp (a ! j') (a ! i) \<or> (\<exists>tk \<in># M. covers i tk \<and> covers j' tk)"
        using j'(1,2) by (rule ord)
      then show ?thesis
      proof
        assume "\<not> cmp (a ! j') (a ! i)"
        then show ?thesis using ai j'(3) by simp
      next
        assume "\<exists>tk \<in># M. covers i tk \<and> covers j' tk"
        then obtain tk where tk: "tk \<in># M" "covers i tk" "covers j' tk" by blast
        have ne: "tk \<noteq> ?T" using tk(2) left by (auto simp add: covers_def)
        then have "covers j tk" using j'(4) tk by blast
        then show ?thesis using keep [OF tk(1) ne] tk(2) by blast
      qed
    next
      case right
      then have aj: "?a' ! j = a ! j" using nth ij by simp
      obtain i' where i': "i' < j" "a ! i' = ?a' ! i"
        "\<And>tk. tk \<in># M \<Longrightarrow> tk \<noteq> ?T \<Longrightarrow> covers i' tk \<Longrightarrow> covers j tk \<Longrightarrow> covers i tk"
      proof (cases "b \<le> i \<and> i < e")
        case True
        then obtain k' where k': "b \<le> k'" "k' < e" "a ! k' = ?a' ! i"
          using inside by blast
        show ?thesis
        proof (rule that [of k'])
          show "k' < j" using right k' by simp
          show "a ! k' = ?a' ! i" by (rule k')
          show "\<And>tk. tk \<in># M \<Longrightarrow> tk \<noteq> ?T \<Longrightarrow> covers k' tk \<Longrightarrow> covers j tk \<Longrightarrow> covers i tk"
            using other k' by blast
        qed
      next
        case False
        then have "?a' ! i = a ! i" using nth [of i] i by auto
        then show ?thesis using that [of i] ij by simp
      qed
      have "\<not> cmp (a ! j) (a ! i') \<or> (\<exists>tk \<in># M. covers i' tk \<and> covers j tk)"
      proof (rule ord)
        show "i' < j" by (rule i'(1))
        show "j < n" using ij by simp
      qed
      then show ?thesis
      proof
        assume "\<not> cmp (a ! j) (a ! i')"
        then show ?thesis using aj i'(2) by simp
      next
        assume "\<exists>tk \<in># M. covers i' tk \<and> covers j tk"
        then obtain tk where tk: "tk \<in># M" "covers i' tk" "covers j tk" by blast
        have ne: "tk \<noteq> ?T" using tk(3) right by (auto simp add: covers_def)
        then have "covers i tk" using i'(3) tk by blast
        then show ?thesis using keep [OF tk(1) ne] tk(3) by blast
      qed
    qed
  qed
  show ?thesis unfolding task_inv_def using P1 P2 P3 P4 by blast
qed

lemma remove_nth_mset:
  assumes "i < length xs"
  shows "mset (remove_nth i xs) = mset xs - {#xs ! i#}"
proof -
  have "xs = take i xs @ xs ! i # drop (Suc i) xs" using assms by (rule id_take_nth_drop)
  then have "mset xs = add_mset (xs ! i) (mset (remove_nth i xs))"
    unfolding remove_nth_def by (metis mset.simps(2) mset_append union_mset_add_mset_right)
  then show ?thesis by simp
qed

lemma remove_nth_sum:
  fixes f :: "'b \<Rightarrow> nat"
  assumes "i < length xs"
  shows "sum_list (map f (remove_nth i xs)) + f (xs ! i) = sum_list (map f xs)"
proof -
  have "xs = take i xs @ xs ! i # drop (Suc i) xs" using assms by (rule id_take_nth_drop)
  then have "sum_list (map f xs) = sum_list (map f (take i xs @ xs ! i # drop (Suc i) xs))"
    by simp
  then show ?thesis unfolding remove_nth_def by simp
qed

lemma task_weight_pos: "2 \<le> task_weight c"
  by (simp add: task_weight_def)

lemma pool_step_inv:
  fixes cmp :: "'a \<Rightarrow> 'a \<Rightarrow> bool"
  assumes swo: "strict_weak_order cmp" and ok: "partition_ok part" and sok: "sort_ok cmp srt"
    and ex: "\<And>tk a. exec tk a = Inr (quick_sort part srt chunk cmp tk a)"
    and inv: "sched_inv cmp S s"
    and step: "pool_step workers exec s (Inr s')"
  shows "sched_inv cmp S s' \<and> sched_measure s' < sched_measure s"
  using step
proof (cases rule: pool_step.cases)
  case (take tk q)
  have "tasks_of s' = tasks_of s" using take by (simp add: tasks_of_def)
  moreover have "arr s' = arr s" using take by simp
  moreover have "sched_measure s' < sched_measure s"
    using take task_weight_pos [of tk] by (simp add: sched_measure_def)
  ultimately show ?thesis using inv by (simp add: sched_inv_def)
next
  case (finish i a' pushed)
  obtain b e where T: "running s ! i = (b, e)" by (cases "running s ! i")
  have Tin: "(b, e) \<in># tasks_of s"
    using finish(2) T unfolding tasks_of_def by (metis nth_mem set_mset_mset union_iff)
  have tinv: "task_inv cmp (length S) (tasks_of s) (arr s)"
    and ms: "mset (arr s) = mset S"
    using inv unfolding sched_inv_def by blast+
  have be: "b \<le> e" "e \<le> length (arr s)"
    using tinv Tin unfolding task_inv_def by auto
  obtain ys cs where q: "quick_sort part srt chunk cmp (b, e) (arr s) = (put_subrange (arr s) b e ys, cs)"
    and ys: "mset ys = mset (subrange (arr s) b e)" and loc: "local_effect cmp b e ys cs"
    using quick_sort_local [OF swo ok sok be] by blast
  have a': "a' = put_subrange (arr s) b e ys" and pushed: "pushed = cs"
    using finish(3) T ex q by simp_all
  have s': "queue s' = queue s @ cs" "running s' = remove_nth i (running s)"
    "arr s' = put_subrange (arr s) b e ys"
    using finish(1) a' pushed by simp_all
  have "tasks_of s' = tasks_of s - {#(b, e)#} + mset cs"
  proof -
    have "(b, e) \<in># mset (running s)" using finish(2) T by (metis nth_mem set_mset_mset)
    then obtain R where R: "mset (running s) = add_mset (b, e) R"
      by (meson multi_member_split)
    then have "mset (remove_nth i (running s)) = R"
      using remove_nth_mset [OF finish(2)] T by simp
    then show ?thesis unfolding tasks_of_def s' using R by simp
  qed
  then have "task_inv cmp (length S) (tasks_of s') (arr s')"
    using task_inv_finish [OF tinv Tin ys loc] s'(3) by simp
  moreover have "mset (arr s') = mset S"
    using mset_put_subrange [OF be ys] ms s'(3) by simp
  moreover have "sched_measure s' < sched_measure s"
  proof -
    have w: "sum_list (map task_weight cs) \<le> 4 * (e - b)"
      using loc unfolding local_effect_def by blast
    have r: "sum_list (map (\<lambda>c. task_weight c - 1) (remove_nth i (running s))) + (4 * (e - b) + 1)
             = sum_list (map (\<lambda>c. task_weight c - 1) (running s))"
      using remove_nth_sum [OF finish(2), of "\<lambda>c. task_weight c - 1"] T
      by (simp add: task_weight_def)
    show ?thesis unfolding sched_measure_def s' using w r by simp
  qed
  ultimately show ?thesis by (simp add: sched_inv_def)
qed

lemma pool_step_no_fault:
  assumes ex: "\<And>tk a. exec tk a = Inr (quick_sort part srt chunk cmp tk a)"
  shows "\<not> pool_step workers exec s (Inl f)"
proof
  assume "pool_step workers exec s (Inl f)"
  then show False by (cases rule: pool_step.cases) (simp add: ex)
qed

lemma pool_step_progress:
  assumes ex: "\<And>tk a. exec tk a = Inr (quick_sort part srt chunk cmp tk a)"
    and w: "0 < workers" and busy: "\<not> (queue s = [] \<and> running s = [])"
  shows "\<exists>s'. pool_step workers exec s (Inr s')"
proof (cases "running s")
  case Nil
  then obtain tk q where "queue s = tk # q" using busy by (cases "queue s") auto
  then have "pool_step workers exec s (Inr (s\<lparr>queue := q, running := running s @ [tk]\<rparr>))"
    using Nil w by (intro pool_step.take) simp_all
  then show ?thesis by blast
next
  case (Cons tk rest)
  then have i: "0 < length (running s)" by simp
  obtain a' pushed where "exec (running s ! 0) (arr s) = Inr (a', pushed)"
    using ex by (metis surj_pair)
  with i show ?thesis using pool_step.finish by blast
qed

lemma initial_sched_inv:
  "sched_inv cmp a \<lparr>queue = [(0, length a)], running = [], arr = a\<rparr>"
  by (simp add: sched_inv_def task_inv_def tasks_of_def covers_def)

lemma pool_reach_inv:
  fixes cmp :: "'a \<Rightarrow> 'a \<Rightarrow> bool"
  assumes swo: "strict_weak_order cmp" and ok: "partition_ok part" and sok: "sort_ok cmp srt"
    and ex: "\<And>tk a. exec tk a = Inr (quick_sort part srt chunk cmp tk a)"
    and r: "pool_reach workers exec s0 s" and inv: "sched_inv cmp S s0"
  shows "sched_inv cmp S s"
  using r unfolding pool_reach_def
proof (induction rule: rtranclp_induct)
  case base
  show ?case by (rule inv)
next
  case (step y z)
  show ?case using pool_step_inv [OF swo ok sok ex step.IH step.hyps(2)] by blast
qed

lemma quiescent_sorted:
  assumes "sched_inv cmp S s" "queue s = []" "running s = []"
  shows "mset (arr s) = mset S \<and> sorted_wrt (\<lambda>x y. \<not> cmp y x) (arr s)"
  using assms by (simp add: sched_inv_def task_inv_def tasks_of_def sorted_wrt_iff_nth_less)

lemma schedules_wf:
  fixes cmp :: "'a \<Rightarrow> 'a \<Rightarrow> bool"
  assumes swo: "strict_weak_order cmp" and ok: "partition_ok part" and sok: "sort_ok cmp srt"
    and ex: "\<And>tk a. exec tk a = Inr (quick_sort part srt chunk cmp tk a)"
    and inv: "sched_inv cmp S s0"
  shows "wf {(s', s). pool_reach workers exec s0 s \<and> pool_step workers exec s (Inr s')}"
proof (rule wf_subset [OF wf_measure [of sched_measure]])
  show "{(s', s). pool_reach workers exec s0 s \<and> pool_step workers exec s (Inr s')}
          \<subseteq> measure sched_measure"
  proof clarify
    fix s' s
    assume r: "pool_reach workers exec s0 s" and st: "pool_step workers exec s (Inr s')"
    have "sched_inv cmp S s" using pool_reach_inv [OF swo ok sok ex r inv] .
    then show "(s', s) \<in> measure sched_measure"
      using pool_step_inv [OF swo ok sok ex _ st] by simp
  qed
qed

subsection \<open>The instances; the partition step\<close>

lemma stable_partition_ok: "partition_ok stable_partition"
proof -
  have "mset (filter P xs) + mset (filter (\<lambda>x. \<not> P x) xs) = mset xs" for P and xs :: "'a list"
    by (induction xs) auto
  then show ?thesis
    by (simp add: partition_ok_def stable_partition_def)
qed

lemma set_insert_by: "set (insert_by cmp x ys) = insert x (set ys)"
  by (induction ys) auto

lemma mset_insert_by: "mset (insert_by cmp x ys) = add_mset x (mset ys)"
  by (induction ys) auto

lemma sorted_insert_by:
  assumes swo: "strict_weak_order cmp"
    and s: "sorted_wrt (\<lambda>x y. \<not> cmp y x) ys"
  shows "sorted_wrt (\<lambda>x y. \<not> cmp y x) (insert_by cmp x ys)"
  using s
proof (induction ys)
  case Nil
  then show ?case by simp
next
  case (Cons y ys)
  have tr: "\<And>u v w. cmp u v \<Longrightarrow> cmp v w \<Longrightarrow> cmp u w"
    and irr: "\<And>u. \<not> cmp u u"
    using swo unfolding strict_weak_order_def by blast+
  show ?case
  proof (cases "cmp x y")
    case True
    have "\<not> cmp z x" if "z \<in> set (y # ys)" for z
    proof
      assume zx: "cmp z x"
      then have "cmp z y" using True tr by blast
      then show False using that Cons.prems irr by auto
    qed
    then show ?thesis using True Cons.prems by simp
  next
    case False
    then show ?thesis using Cons by (auto simp add: set_insert_by)
  qed
qed

lemma insertion_sort_ok:
  assumes "strict_weak_order cmp"
  shows "sort_ok cmp insertion_sort"
proof -
  have "mset (foldr (insert_by cmp) xs []) = mset xs \<and>
        sorted_wrt (\<lambda>x y. \<not> cmp y x) (foldr (insert_by cmp) xs [])" for xs
    by (induction xs) (simp_all add: mset_insert_by sorted_insert_by [OF assms])
  then show ?thesis by (simp add: sort_ok_def insertion_sort_def)
qed

lemma less_strict_weak_order: "strict_weak_order ((<) :: nat \<Rightarrow> nat \<Rightarrow> bool)"
  by (auto simp add: strict_weak_order_def)

lemma subrange_middle:
  assumes "b \<le> e" "e \<le> length a" "length (L @ M @ R) = e - b"
  shows "subrange (put_subrange a b e (L @ M @ R)) (b + length L) (b + length L + length M) = M"
  using assms by (simp add: subrange_def put_subrange_def)

text \<open>
  C10: in a partition step on a range longer than one element and than the chunk size,
  the section \<open>[middle1, middle2)\<close> is not empty and holds the pivot value, so both pushed
  ranges are strictly shorter than their parent; and the tasks spawned from any input
  \<open>S\<close> are finitely many, whatever the number of workers: the relation of pool steps
  below the root task is well-founded.  The comparison is a strict weak order, as
  \<open>Compare\<close> requires.
\<close>

theorem partition_step_shrinks:
  fixes cmp :: "'a \<Rightarrow> 'a \<Rightarrow> bool"
  assumes swo: "strict_weak_order cmp"
    and ok: "partition_ok part" and sok: "sort_ok cmp srt"
    and be: "b \<le> e" "e \<le> length a"
    and big: "1 < e - b" "chunk_size < e - b"
  shows "(\<exists>a' middle1 middle2.
            quick_sort part srt chunk_size cmp (b, e) a = (a', [(b, middle1), (middle2, e)]) \<and>
            b \<le> middle1 \<and> middle1 < middle2 \<and> middle2 \<le> e \<and>
            a ! (b + (e - b) div 2) \<in> set (subrange a' middle1 middle2) \<and>
            middle1 - b < e - b \<and> e - middle2 < e - b) \<and>
         wf {(s', s).
              pool_reach workers (\<lambda>tk x. Inr (quick_sort part srt chunk_size cmp tk x))
                \<lparr>queue = [(0, length S)], running = [], arr = S\<rparr> s \<and>
              pool_step workers (\<lambda>tk x. Inr (quick_sort part srt chunk_size cmp tk x))
                s (Inr s')}"
proof -
  define p where "p = a ! (b + (e - b) div 2)"
  define r1 where "r1 = part (\<lambda>em. cmp em p) (subrange a b e)"
  define r2 where "r2 = part (\<lambda>em. \<not> cmp p em) (drop (snd r1) (fst r1))"
  define L where "L = take (snd r1) (fst r1)"
  define M where "M = take (snd r2) (fst r2)"
  define R where "R = drop (snd r2) (fst r2)"
  have pin: "p \<in> set (subrange a b e)"
    unfolding p_def using be big(1) by (rule pivot_in_subrange)
  have irr: "\<not> cmp p p" using swo by (rule strict_weak_order_irrefl)
  note pt = partition_twice [where cmp = cmp and p = p and part = part
      and xs = "subrange a b e", OF irr ok pin, folded r1_def, folded r2_def,
      folded L_def M_def R_def]
  have qs: "quick_sort part srt chunk_size cmp (b, e) a =
        (put_subrange a b e (L @ M @ R), [(b, b + length L), (b + length L + length M, e)])"
    using quick_sort_partition_eq [where cmp = cmp and srt = srt, OF be big ok]
    unfolding p_def [symmetric] r1_def [symmetric] r2_def [symmetric] L_def [symmetric]
    using pt(2,3,4) by simp
  have len: "length (L @ M @ R) = e - b" using pt(5) be by (simp add: length_subrange)
  have lens: "length L + length M + length R = e - b" using len by simp
  have Mne: "1 \<le> length M" using pt(9) by (cases M) auto
  have mid: "subrange (put_subrange a b e (L @ M @ R)) (b + length L) (b + length L + length M) = M"
    using be len by (rule subrange_middle)
  have "b \<le> b + length L \<and> b + length L < b + length L + length M \<and>
        b + length L + length M \<le> e \<and>
        a ! (b + (e - b) div 2) \<in> set (subrange (put_subrange a b e (L @ M @ R))
             (b + length L) (b + length L + length M)) \<and>
        (b + length L) - b < e - b \<and> e - (b + length L + length M) < e - b"
    using lens Mne be pt(9) unfolding mid p_def by auto
  then have A: "\<exists>a' middle1 middle2.
            quick_sort part srt chunk_size cmp (b, e) a = (a', [(b, middle1), (middle2, e)]) \<and>
            b \<le> middle1 \<and> middle1 < middle2 \<and> middle2 \<le> e \<and>
            a ! (b + (e - b) div 2) \<in> set (subrange a' middle1 middle2) \<and>
            middle1 - b < e - b \<and> e - middle2 < e - b"
    using qs by blast
  have B: "wf {(s', s).
              pool_reach workers (\<lambda>tk x. Inr (quick_sort part srt chunk_size cmp tk x))
                \<lparr>queue = [(0, length S)], running = [], arr = S\<rparr> s \<and>
              pool_step workers (\<lambda>tk x. Inr (quick_sort part srt chunk_size cmp tk x))
                s (Inr s')}"
    using swo ok sok _ initial_sched_inv by (rule schedules_wf) simp
  show ?thesis using A B by blast
qed

text \<open>The hypotheses hold for the range \<open>[3, 1, 2, 1, 2]\<close> with pivot 2.\<close>

theorem partition_step_shrinks_witness:
  "strict_weak_order ((<) :: nat \<Rightarrow> nat \<Rightarrow> bool) \<and>
   partition_ok (stable_partition :: nat std_partition) \<and>
   sort_ok (<) (insertion_sort :: nat std_sort) \<and>
   (0 :: nat) \<le> 5 \<and> 5 \<le> length [3, 1, 2, 1, 2 :: nat] \<and> (1 :: nat) < 5 - 0 \<and> (0 :: nat) < 5 - 0 \<and>
   quick_sort stable_partition insertion_sort 0 (<) (0, 5) [3, 1, 2, 1, 2 :: nat] =
     ([1, 1, 2, 2, 3], [(0, 2), (4, 5)]) \<and>
   (\<exists>a' middle1 middle2.
      quick_sort stable_partition insertion_sort 0 (<) (0, 5) [3, 1, 2, 1, 2 :: nat] =
        (a', [(0, middle1), (middle2, 5)]) \<and> middle1 < middle2 \<and>
      [3, 1, 2, 1, 2 :: nat] ! (0 + (5 - 0) div 2) \<in> set (subrange a' middle1 middle2))"
proof -
  have h1: "strict_weak_order ((<) :: nat \<Rightarrow> nat \<Rightarrow> bool)" by (rule less_strict_weak_order)
  have h2: "partition_ok (stable_partition :: nat std_partition)" by (rule stable_partition_ok)
  have h3: "sort_ok (<) (insertion_sort :: nat std_sort)" using h1 by (rule insertion_sort_ok)
  have h4: "(0 :: nat) \<le> 5" "5 \<le> length [3, 1, 2, 1, 2 :: nat]" by simp_all
  have h5: "(1 :: nat) < 5 - 0" "(0 :: nat) < 5 - 0" by simp_all
  have ev: "quick_sort stable_partition insertion_sort 0 (<) (0, 5) [3, 1, 2, 1, 2 :: nat] =
     ([1, 1, 2, 2, 3], [(0, 2), (4, 5)])"
    by code_simp
  show ?thesis
    using partition_step_shrinks [OF h1 h2 h3 h4 h5, of 1 "[]"] h1 h2 h3 h4 h5 ev
    by blast
qed

section \<open>Properties of the worker pool\<close>

lemma waiting_workers_elem:
  "i \<in> set (waiting_workers ws k) \<Longrightarrow> k \<le> i \<and> i - k < length ws \<and> ws ! (i - k) = WWaiting"
proof (induction ws arbitrary: k)
  case Nil
  then show ?case by simp
next
  case (Cons w ws)
  show ?case
  proof (cases "i = k")
    case True
    then show ?thesis using Cons.prems Cons.IH [of "Suc k"] by (auto split: if_splits)
  next
    case False
    then have "i \<in> set (waiting_workers ws (Suc k))"
      using Cons.prems by (auto split: if_splits)
    then have "Suc k \<le> i \<and> i - Suc k < length ws \<and> ws ! (i - Suc k) = WWaiting"
      by (rule Cons.IH)
    moreover from this have "i - k = Suc (i - Suc k)" by arith
    ultimately show ?thesis by simp
  qed
qed

lemma notify_one_cases:
  "notify_one c ws = ws \<or>
   (\<exists>i < length ws. ws ! i = WWaiting \<and> notify_one c ws = ws[i := WWoken])"
proof (cases "waiting_workers ws 0")
  case Nil
  then show ?thesis by (simp add: notify_one_def)
next
  case (Cons i js)
  let ?j = "(i # js) ! (c mod length (i # js))"
  have "?j \<in> set (waiting_workers ws 0)"
    unfolding Cons by (rule nth_mem) simp
  then have "?j < length ws \<and> ws ! ?j = WWaiting"
    using waiting_workers_elem [of ?j ws 0] by simp
  moreover have "notify_one c ws = ws[?j := WWoken]" by (simp add: notify_one_def Cons)
  ultimately show ?thesis by blast
qed

lemma norm_update:
  assumes "i < length ws"
  shows "\<exists>M. image_mset norm_w (mset ws) = add_mset (norm_w (ws ! i)) M \<and>
             image_mset norm_w (mset (ws[i := v])) = add_mset (norm_w v) M"
proof -
  have "ws ! i \<in># mset ws" using assms by simp
  then obtain A where A: "mset ws = add_mset (ws ! i) A" by (meson multi_member_split)
  have "mset (ws[i := v]) = add_mset v (mset ws - {#ws ! i#})"
    using assms by (rule mset_update)
  then have "mset (ws[i := v]) = add_mset v A" using A by simp
  then show ?thesis using A by auto
qed

lemma norm_notify_one: "image_mset norm_w (mset (notify_one c ws)) = image_mset norm_w (mset ws)"
proof -
  consider "notify_one c ws = ws"
    | i where "i < length ws" "ws ! i = WWaiting" "notify_one c ws = ws[i := WWoken]"
    using notify_one_cases by blast
  then show ?thesis
  proof cases
    case 1
    then show ?thesis by simp
  next
    case 2
    obtain M where "image_mset norm_w (mset ws) = add_mset (norm_w (ws ! i)) M"
      "image_mset norm_w (mset (ws[i := WWoken])) = add_mset (norm_w WWoken) M"
      using norm_update [OF 2(1)] by blast
    then show ?thesis using 2 by simp
  qed
qed

lemma norm_notify_all: "image_mset norm_w (mset (notify_all ws)) = image_mset norm_w (mset ws)"
proof -
  have "norm_w (if w = WWaiting then WWoken else w) = norm_w w" for w by simp
  then show ?thesis by (simp add: notify_all_def multiset.map_comp comp_def)
qed

lemma length_notify_one [simp]: "length (notify_one c ws) = length ws"
  using notify_one_cases [of c ws] by auto

lemma length_notify_all [simp]: "length (notify_all ws) = length ws"
  by (simp add: notify_all_def)

lemma norm_blocking: "norm_w w = WBlocking \<longleftrightarrow> w = WBlocking"
  by (cases w) simp_all

lemma blocking_notify_one: "WBlocking \<in> set (notify_one c ws) \<longleftrightarrow> WBlocking \<in> set ws"
proof -
  have "WBlocking \<in># image_mset norm_w (mset xs) \<longleftrightarrow> WBlocking \<in> set xs" for xs
  proof
    assume "WBlocking \<in># image_mset norm_w (mset xs)"
    then obtain w where "w \<in> set xs" "norm_w w = WBlocking" by auto
    then show "WBlocking \<in> set xs" by (simp add: norm_blocking)
  next
    assume "WBlocking \<in> set xs"
    moreover have "norm_w WBlocking = WBlocking" by simp
    ultimately show "WBlocking \<in># image_mset norm_w (mset xs)"
      unfolding in_image_mset set_mset_mset by (metis image_eqI)
  qed
  then show ?thesis using norm_notify_one [of c ws] by metis
qed

lemma thread_split:
  assumes "w < length (threads s)"
  shows "\<exists>M. tset s = add_mset (norm_w (threads s ! w)) M \<and>
            (\<forall>v. image_mset norm_w (mset ((threads s)[w := v])) = add_mset (norm_w v) M)"
proof -
  have "threads s ! w \<in># mset (threads s)" using assms by simp
  then obtain A where A: "mset (threads s) = add_mset (threads s ! w) A"
    by (meson multi_member_split)
  have "mset ((threads s)[w := v]) = add_mset v A" for v
    using mset_update [OF assms, of v] A by simp
  then show ?thesis using A by (auto simp add: tset_def)
qed

lemma tset_add [simp]: "tset (add f c s) = tset s"
  by (simp add: tset_def add_def norm_notify_one)

lemma tset_fields [simp]:
  "tset (s\<lparr>task_queue := q\<rparr>) = tset s"
  "tset (s\<lparr>active := a\<rparr>) = tset s"
  "tset (s\<lparr>shutdown_request := b\<rparr>) = tset s"
  "tset (s\<lparr>client := c\<rparr>) = tset s"
  "tset (s\<lparr>program := p\<rparr>) = tset s"
  "tset (s\<lparr>submitted := l1\<rparr>) = tset s"
  "tset (s\<lparr>started := l2\<rparr>) = tset s"
  "tset (s\<lparr>finished := l3\<rparr>) = tset s"
  by (simp_all add: tset_def)

lemma tset_threads: "tset (s\<lparr>threads := ws\<rparr>) = image_mset norm_w (mset ws)"
  by (simp add: tset_def)

lemma tset_more_fields [simp]:
  "tset (s\<lparr>destroyed := d\<rparr>) = tset s"
  "tset (s\<lparr>failure := e\<rparr>) = tset s"
  "tset (s\<lparr>discarded := l4\<rparr>) = tset s"
  by (simp_all add: tset_def)

lemma use_after_same [simp]:
  "tset (use_after_destruction s) = tset s"
  "threads (use_after_destruction s) = threads s"
  "task_queue (use_after_destruction s) = task_queue s"
  "active (use_after_destruction s) = active s"
  "shutdown_request (use_after_destruction s) = shutdown_request s"
  "client (use_after_destruction s) = client s"
  "program (use_after_destruction s) = program s"
  "destroyed (use_after_destruction s) = destroyed s"
  "submitted (use_after_destruction s) = submitted s"
  "started (use_after_destruction s) = started s"
  "finished (use_after_destruction s) = finished s"
  "discarded (use_after_destruction s) = discarded s"
  "failure (use_after_destruction s) = Some UseAfterDestruction"
  by (simp_all add: use_after_destruction_def)

lemma locked_cases:
  assumes "locked s x = Some s'"
  obtains (dead) "destroyed s" "s' = use_after_destruction s"
    | (alive) "\<not> destroyed s" "lock_free s" "s' = x"
  using assms by (auto simp add: locked_def split: if_splits)

text \<open>What \<open>drain\<close> does, given the slot of the worker.\<close>

lemma drain_effect:
  assumes M: "tset s = add_mset old M"
    "\<forall>v. image_mset norm_w (mset ((threads s)[w := v])) = add_mset (norm_w v) M"
  shows "(\<exists>f q. task_queue s = f # q \<and> tset (drain w s) = add_mset (WRunning f (spawns f)) M \<and>
            task_queue (drain w s) = q \<and> started (drain w s) = started s @ [f] \<and>
            active (drain w s) = active s \<and> client (drain w s) = client s) \<or>
         (task_queue s = [] \<and> task_queue (drain w s) = [] \<and>
            tset (drain w s) = add_mset (if shutdown_request s then WExited else WBlocking) M \<and>
            started (drain w s) = started s \<and> active (drain w s) = active s - 1 \<and>
            (client (drain w s) = client s \<or>
               (client s = CWaiting \<and> client (drain w s) = CWoken)))"
proof (cases "task_queue s")
  case Nil
  then show ?thesis using M(2)
    by (simp add: drain_def Let_def tset_def notify_all_wait_def)
next
  case (Cons f q)
  then show ?thesis using M(2) by (simp add: drain_def tset_def)
qed

lemma drain_same:
  "submitted (drain w s) = submitted s" "finished (drain w s) = finished s"
  "program (drain w s) = program s" "shutdown_request (drain w s) = shutdown_request s"
  "destroyed (drain w s) = destroyed s" "failure (drain w s) = failure s"
  "discarded (drain w s) = discarded s"
  by (simp_all add: drain_def Let_def split: list.split)

lemma drain_list:
  "(\<exists>f q. task_queue s = f # q \<and> task_queue (drain w s) = q \<and>
           threads (drain w s) = (threads s)[w := WRunning f (spawns f)]) \<or>
   (task_queue s = [] \<and> task_queue (drain w s) = [] \<and>
      threads (drain w s) = (threads s)[w := (if shutdown_request s then WExited else WBlocking)])"
  by (cases "task_queue s") (simp_all add: drain_def Let_def)

lemma add_same:
  "task_queue (add f c s) = task_queue s @ [f]" "submitted (add f c s) = submitted s @ [f]"
  "started (add f c s) = started s" "finished (add f c s) = finished s"
  "active (add f c s) = active s" "client (add f c s) = client s"
  "program (add f c s) = program s" "shutdown_request (add f c s) = shutdown_request s"
  "destroyed (add f c s) = destroyed s" "failure (add f c s) = failure s"
  "discarded (add f c s) = discarded s" "threads (add f c s) = notify_one c (threads s)"
  by (simp_all add: add_def)

lemma worker_cases:
  assumes "worker w c s = Some s'"
  obtains
    (enter) M where "tset s = add_mset WStart M \<or> tset s = add_mset WWaiting M"
      "\<forall>v. image_mset norm_w (mset ((threads s)[w := v])) = add_mset (norm_w v) M"
      "s' = drain w (s\<lparr>active := active s + 1\<rparr>)" "lock_free s" "\<not> destroyed s"
      "w < length (threads s)" "threads s ! w = WStart \<or> threads s ! w = WWoken"
  | (push) M f p ps where "tset s = add_mset (WRunning f (p # ps)) M"
      "tset s' = add_mset (WRunning f ps) M" "lock_free s"
      "s' = add p c (s\<lparr>threads := (threads s)[w := WRunning f ps]\<rparr>)" "\<not> destroyed s"
      "w < length (threads s)" "threads s ! w = WRunning f (p # ps)"
  | (crash) M f where "tset s = add_mset (WRunning f []) M" "throws f"
      "tset s' = add_mset WCrashed M"
      "s' = s\<lparr>threads := (threads s)[w := WCrashed], finished := finished s @ [f]\<rparr>"
      "w < length (threads s)" "threads s ! w = WRunning f []"
  | (complete) M f where "tset s = add_mset (WRunning f []) M" "\<not> throws f"
      "\<forall>v. image_mset norm_w (mset ((threads s)[w := v])) = add_mset (norm_w v) M"
      "s' = drain w (s\<lparr>finished := finished s @ [f]\<rparr>)" "lock_free s" "\<not> destroyed s"
      "w < length (threads s)" "threads s ! w = WRunning f []"
  | (block) M where "tset s = add_mset WBlocking M" "tset s' = add_mset WWaiting M"
      "s' = s\<lparr>threads := (threads s)[w := WWaiting]\<rparr>" "\<not> destroyed s"
      "w < length (threads s)" "threads s ! w = WBlocking"
  | (misuse) "destroyed s" "s' = use_after_destruction s" "w < length (threads s)"
proof -
  have w: "w < length (threads s)" using assms by (auto simp add: worker_def split: if_splits)
  obtain M where M: "tset s = add_mset (norm_w (threads s ! w)) M"
    "\<forall>v. image_mset norm_w (mset ((threads s)[w := v])) = add_mset (norm_w v) M"
    using thread_split [OF w] by blast
  show ?thesis
  proof (cases "threads s ! w")
    case WStart
    then have L: "locked s (drain w (s\<lparr>active := active s + 1\<rparr>)) = Some s'"
      using assms w by (simp add: worker_def)
    have T: "tset s = add_mset WStart M" using M(1) WStart by simp
    from L show ?thesis
    proof (cases rule: locked_cases)
      case dead
      then show ?thesis using w misuse by blast
    next
      case alive
      then show ?thesis using T M(2) w WStart enter [of M] by blast
    qed
  next
    case WWoken
    then have L: "locked s (drain w (s\<lparr>active := active s + 1\<rparr>)) = Some s'"
      using assms w by (simp add: worker_def)
    have T: "tset s = add_mset WWaiting M" using M(1) WWoken by simp
    from L show ?thesis
    proof (cases rule: locked_cases)
      case dead
      then show ?thesis using w misuse by blast
    next
      case alive
      then show ?thesis using T M(2) w WWoken enter [of M] by blast
    qed
  next
    case (WRunning f ps)
    have T: "tset s = add_mset (WRunning f ps) M" using M(1) WRunning by simp
    show ?thesis
    proof (cases ps)
      case Nil
      show ?thesis
      proof (cases "throws f")
        case True
        then have "worker w c s =
            Some (s\<lparr>threads := (threads s)[w := WCrashed], finished := finished s @ [f]\<rparr>)"
          using w WRunning Nil by (simp add: worker_def)
        then have s': "s' = s\<lparr>threads := (threads s)[w := WCrashed], finished := finished s @ [f]\<rparr>"
          using assms by simp
        have "tset s' = add_mset WCrashed M"
          unfolding s' using M(2) by (simp add: tset_def)
        then show ?thesis using T Nil True s' w WRunning crash [of f M] by blast
      next
        case False
        then have L: "locked s (drain w (s\<lparr>finished := finished s @ [f]\<rparr>)) = Some s'"
          using assms w WRunning Nil by (simp add: worker_def)
        from L show ?thesis
        proof (cases rule: locked_cases)
          case dead
          then show ?thesis using w misuse by blast
        next
          case alive
          then show ?thesis using T Nil False M(2) w WRunning complete [of f M] by blast
        qed
      qed
    next
      case (Cons p ps')
      then have L: "locked s (add p c (s\<lparr>threads := (threads s)[w := WRunning f ps']\<rparr>)) = Some s'"
        using assms w WRunning by (simp add: worker_def)
      from L show ?thesis
      proof (cases rule: locked_cases)
        case dead
        then show ?thesis using w misuse by blast
      next
        case alive
        have "tset s' = add_mset (WRunning f ps') M"
          unfolding alive(3) using M(2) by (simp add: tset_threads)
        then show ?thesis using T Cons alive w WRunning push [of f p ps' M] by blast
      qed
    qed
  next
    case WBlocking
    show ?thesis
    proof (cases "destroyed s")
      case True
      then have "s' = use_after_destruction s"
        using assms w WBlocking by (simp add: worker_def)
      then show ?thesis using True w misuse by blast
    next
      case False
      then have s': "s' = s\<lparr>threads := (threads s)[w := WWaiting]\<rparr>"
        using assms w WBlocking by (simp add: worker_def)
      have "tset s' = add_mset WWaiting M"
        unfolding s' using M(2) by (simp add: tset_def)
      moreover have "tset s = add_mset WBlocking M" using M(1) WBlocking by simp
      ultimately show ?thesis using s' False w WBlocking block [of M] by blast
    qed
  next
    case WWaiting
    then show ?thesis using assms w by (simp add: worker_def)
  next
    case WExited
    then show ?thesis using assms w by (simp add: worker_def)
  next
    case WCrashed
    then show ?thesis using assms w by (simp add: worker_def)
  qed
qed

lemma owner_cases:
  assumes "owner c s = Some s'"
  obtains
    (returned) "client s = CWoken" "lock_free s"
      "s' = s\<lparr>client := CReady, program := tl (program s)\<rparr>" "\<not> destroyed s"
  | (push) f rest where "client s = CReady" "program s = Push f # rest" "lock_free s"
      "s' = add f c (s\<lparr>program := rest\<rparr>)" "\<not> destroyed s"
  | (wait_block) rest where "client s = CReady" "program s = Wait # rest" "wait_blocks s"
      "lock_free s" "s' = s\<lparr>client := CWaiting\<rparr>" "\<not> destroyed s"
  | (wait_pass) rest where "client s = CReady" "program s = Wait # rest" "\<not> wait_blocks s"
      "lock_free s" "s' = s\<lparr>program := rest\<rparr>" "\<not> destroyed s"
  | (set_flag) rest where "client s = CReady" "program s = SetShutdown # rest"
      "s' = s\<lparr>shutdown_request := True, program := rest\<rparr>"
  | (wake_all) rest where "client s = CReady" "program s = NotifyAll # rest"
      "s' = s\<lparr>threads := notify_all (threads s), program := rest\<rparr>"
  | (destroy) rest where "client s = CReady" "program s = DestroyMembers # rest"
      "s' = s\<lparr>task_queue := [], discarded := discarded s @ task_queue s,
              destroyed := True, program := rest\<rparr>"
  | (join) rest where "client s = CReady" "program s = Join # rest"
      "list_all (\<lambda>w. w = WExited \<or> w = WCrashed) (threads s)" "s' = s\<lparr>program := rest\<rparr>"
  | (misuse) "destroyed s" "s' = use_after_destruction s"
proof (cases "client s")
  case CWaiting
  then show ?thesis using assms by (simp add: owner_def)
next
  case CWoken
  then have "locked s (s\<lparr>client := CReady, program := tl (program s)\<rparr>) = Some s'"
    using assms by (simp add: owner_def)
  then show ?thesis
  proof (cases rule: locked_cases)
    case dead
    then show ?thesis using misuse by blast
  next
    case alive
    then show ?thesis using CWoken returned by blast
  qed
next
  case CReady
  show ?thesis
  proof (cases "program s")
    case Nil
    then show ?thesis using assms CReady by (simp add: owner_def)
  next
    case (Cons cm rest)
    show ?thesis
    proof (cases cm)
      case (Push f)
      then have "locked s (add f c (s\<lparr>program := rest\<rparr>)) = Some s'"
        using assms CReady Cons by (simp add: owner_def)
      then show ?thesis
      proof (cases rule: locked_cases)
        case dead
        then show ?thesis using misuse by blast
      next
        case alive
        then show ?thesis using CReady Cons Push push [of f rest] by blast
      qed
    next
      case Wait
      then have "locked s (if wait_blocks s then s\<lparr>client := CWaiting\<rparr> else s\<lparr>program := rest\<rparr>)
          = Some s'"
        using assms CReady Cons by (simp add: owner_def)
      then show ?thesis
      proof (cases rule: locked_cases)
        case dead
        then show ?thesis using misuse by blast
      next
        case alive
        show ?thesis
        proof (cases "wait_blocks s")
          case True
          then show ?thesis using alive CReady Cons Wait wait_block [of rest] by simp
        next
          case False
          then show ?thesis using alive CReady Cons Wait wait_pass [of rest] by simp
        qed
      qed
    next
      case SetShutdown
      then show ?thesis using assms CReady Cons set_flag [of rest]
        by (simp add: owner_def)
    next
      case NotifyAll
      then show ?thesis using assms CReady Cons wake_all [of rest]
        by (simp add: owner_def)
    next
      case DestroyMembers
      then show ?thesis using assms CReady Cons destroy [of rest]
        by (simp add: owner_def)
    next
      case Join
      then show ?thesis using assms CReady Cons join [of rest]
        by (simp add: owner_def split: if_splits)
    qed
  qed
qed

lemma step_cases:
  assumes "step ev s = Some s'"
  obtains
    (Worker) w c where "ev = Worker w c" "worker w c s = Some s'" "failure s = None"
  | (Owner) c where "ev = Owner c" "owner c s = Some s'" "failure s = None"
  | (Spurious_worker) w where "ev = Spurious_worker w" "w < length (threads s)"
      "threads s ! w = WWaiting" "s' = s\<lparr>threads := (threads s)[w := WWoken]\<rparr>"
      "failure s = None"
  | (Spurious_owner) "ev = Spurious_owner" "client s = CWaiting" "s' = s\<lparr>client := CWoken\<rparr>"
      "failure s = None"
  using assms by (cases ev) (auto simp add: step_def split: if_splits)

lemma spurious_worker_tset:
  assumes "w < length (threads s)" "threads s ! w = WWaiting"
  shows "tset (s\<lparr>threads := (threads s)[w := WWoken]\<rparr>) = tset s"
proof -
  obtain M where "tset s = add_mset (norm_w (threads s ! w)) M"
    "\<forall>v. image_mset norm_w (mset ((threads s)[w := v])) = add_mset (norm_w v) M"
    using thread_split [OF assms(1)] by blast
  then show ?thesis using assms(2) by (simp add: tset_threads)
qed

lemma tset_notify_all [simp]: "tset (s\<lparr>threads := notify_all (threads s)\<rparr>) = tset s"
  by (simp add: tset_def norm_notify_all)

lemma non_busy [simp]: "\<not> busy WStart" "\<not> busy WWaiting" "\<not> busy WBlocking" "\<not> busy WExited"
  by simp_all

lemma step_inv_count:
  assumes "step ev s = Some s'" "inv_count n s"
  shows "inv_count n s'"
  using assms(1)
proof (cases rule: step_cases)
  case (Worker w c)
  from Worker(2) show ?thesis
  proof (cases rule: worker_cases)
    case (enter M)
    let ?s1 = "s\<lparr>active := active s + 1\<rparr>"
    obtain old where old: "tset ?s1 = add_mset old M" "\<not> busy old"
      using enter(1) by auto
    have th: "\<forall>v. image_mset norm_w (mset ((threads ?s1)[w := v])) = add_mset (norm_w v) M"
      using enter(2) by simp
    have a: "active s = size (filter_mset busy M)" "Suc (size M) = n"
      using assms(2) old by (simp_all add: inv_count_def)
    show ?thesis
      using drain_effect [OF old(1) th] a unfolding enter(3) inv_count_def by auto
  next
    case (push M f p ps)
    then show ?thesis using assms(2) by (simp add: inv_count_def add_same)
  next
    case (crash M f)
    then show ?thesis using assms(2) by (simp add: inv_count_def)
  next
    case (complete M f)
    let ?s1 = "s\<lparr>finished := finished s @ [f]\<rparr>"
    have old: "tset ?s1 = add_mset (WRunning f []) M" using complete(1) by simp
    have th: "\<forall>v. image_mset norm_w (mset ((threads ?s1)[w := v])) = add_mset (norm_w v) M"
      using complete(3) by simp
    have a: "active s = Suc (size (filter_mset busy M))" "Suc (size M) = n"
      using assms(2) complete(1) by (simp_all add: inv_count_def)
    show ?thesis
      using drain_effect [OF old th] a unfolding complete(4) inv_count_def by auto
  next
    case (block M)
    then show ?thesis using assms(2) by (simp add: inv_count_def)
  next
    case misuse
    then show ?thesis using assms(2) by (simp add: inv_count_def)
  qed
next
  case (Owner c)
  from Owner(2) show ?thesis using assms(2)
    by (cases rule: owner_cases) (simp_all add: inv_count_def add_same)
next
  case (Spurious_worker w)
  then show ?thesis using assms(2) by (simp add: inv_count_def spurious_worker_tset)
next
  case Spurious_owner
  then show ?thesis using assms(2) by (simp add: inv_count_def)
qed

lemma step_inv_logs:
  assumes "step ev s = Some s'" "inv_logs s"
  shows "inv_logs s'"
  using assms(1)
proof (cases rule: step_cases)
  case (Worker w c)
  from Worker(2) show ?thesis
  proof (cases rule: worker_cases)
    case (enter M)
    let ?s1 = "s\<lparr>active := active s + 1\<rparr>"
    obtain old where old: "tset ?s1 = add_mset old M" "in_flight old = {#}"
      using enter(1) by auto
    have th: "\<forall>v. image_mset norm_w (mset ((threads ?s1)[w := v])) = add_mset (norm_w v) M"
      using enter(2) by simp
    have a: "mset (submitted s) = mset (task_queue s) + mset (started s) + mset (discarded s)"
      "mset (started s) = mset (finished s) + (\<Sum>w \<in># M. in_flight w)"
      "\<not> destroyed s \<longrightarrow> discarded s = []"
      using assms(2) old by (simp_all add: inv_logs_def)
    show ?thesis
      using drain_effect [OF old(1) th] a unfolding enter(3) inv_logs_def
      by (auto simp add: drain_same)
  next
    case (push M f p ps)
    then show ?thesis using assms(2) by (simp add: inv_logs_def add_same)
  next
    case (crash M f)
    then show ?thesis using assms(2) by (simp add: inv_logs_def)
  next
    case (complete M f)
    let ?s1 = "s\<lparr>finished := finished s @ [f]\<rparr>"
    have old: "tset ?s1 = add_mset (WRunning f []) M" using complete(1) by simp
    have th: "\<forall>v. image_mset norm_w (mset ((threads ?s1)[w := v])) = add_mset (norm_w v) M"
      using complete(3) by simp
    have a: "mset (submitted s) = mset (task_queue s) + mset (started s) + mset (discarded s)"
      "mset (started s) = add_mset f (mset (finished s) + (\<Sum>w \<in># M. in_flight w))"
      "\<not> destroyed s \<longrightarrow> discarded s = []"
      using assms(2) complete(1) by (simp_all add: inv_logs_def)
    show ?thesis
      using drain_effect [OF old th] a unfolding complete(4) inv_logs_def
      by (auto simp add: drain_same)
  next
    case (block M)
    then show ?thesis using assms(2) by (simp add: inv_logs_def)
  next
    case misuse
    then show ?thesis using assms(2) by (simp add: inv_logs_def)
  qed
next
  case (Owner c)
  from Owner(2) show ?thesis using assms(2)
    by (cases rule: owner_cases) (simp_all add: inv_logs_def add_same)
next
  case (Spurious_worker w)
  then show ?thesis using assms(2) by (simp add: inv_logs_def spurious_worker_tset)
next
  case Spurious_owner
  then show ?thesis using assms(2) by (simp add: inv_logs_def)
qed

lemma never_throws_here: "never_throws f \<Longrightarrow> \<not> throws f"
  by (cases f) simp

lemma never_throws_spawns: "never_throws f \<Longrightarrow> g \<in> set (spawns f) \<Longrightarrow> never_throws g"
  by (cases f) simp

lemma safe_running: "never_throws f \<Longrightarrow> safe_w (WRunning f (spawns f))"
  by (cases f) simp

lemma drain_safe:
  assumes old: "tset s = add_mset old M"
    and th: "\<forall>v. image_mset norm_w (mset ((threads s)[w := v])) = add_mset (norm_w v) M"
    and a: "\<forall>f \<in> set (task_queue s). never_throws f" "\<forall>w \<in># M. safe_w w"
      "list_all harmless (program s)"
  shows "inv_safe (drain w s)"
proof -
  consider (run) f q where "task_queue s = f # q"
      "tset (drain w s) = add_mset (WRunning f (spawns f)) M" "task_queue (drain w s) = q"
    | (idle) "task_queue (drain w s) = []"
      "tset (drain w s) = add_mset (if shutdown_request s then WExited else WBlocking) M"
    using drain_effect [OF old th] by blast
  then show ?thesis
  proof cases
    case run
    have "never_throws f" using a(1) run(1) by simp
    then have "safe_w (WRunning f (spawns f))" by (rule safe_running)
    moreover have "\<forall>g \<in> set q. never_throws g" using a(1) run(1) by simp
    ultimately show ?thesis
      unfolding inv_safe_def run(2,3) drain_same using a(2,3) by simp
  next
    case idle
    show ?thesis
      unfolding inv_safe_def idle drain_same using a(2,3) by simp
  qed
qed

lemma step_inv_safe:
  assumes "step ev s = Some s'" "inv_safe s"
  shows "inv_safe s'"
  using assms(1)
proof (cases rule: step_cases)
  case (Worker w c)
  from Worker(2) show ?thesis
  proof (cases rule: worker_cases)
    case (enter M)
    let ?s1 = "s\<lparr>active := active s + 1\<rparr>"
    obtain old where old: "tset ?s1 = add_mset old M"
      using enter(1) by auto
    have th: "\<forall>v. image_mset norm_w (mset ((threads ?s1)[w := v])) = add_mset (norm_w v) M"
      using enter(2) by simp
    have a: "\<forall>f \<in> set (task_queue s). never_throws f" "\<forall>w \<in># M. safe_w w"
      "list_all harmless (program s)"
      using assms(2) old by (simp_all add: inv_safe_def)
    show ?thesis unfolding enter(3)
      using old th by (rule drain_safe) (simp_all add: a)
  next
    case (push M f p ps)
    then show ?thesis using assms(2) by (auto simp add: inv_safe_def add_same)
  next
    case (crash M f)
    then show ?thesis using assms(2) by (simp add: inv_safe_def)
  next
    case (complete M f)
    let ?s1 = "s\<lparr>finished := finished s @ [f]\<rparr>"
    have old: "tset ?s1 = add_mset (WRunning f []) M" using complete(1) by simp
    have th: "\<forall>v. image_mset norm_w (mset ((threads ?s1)[w := v])) = add_mset (norm_w v) M"
      using complete(3) by simp
    have a: "\<forall>f \<in> set (task_queue s). never_throws f" "\<forall>w \<in># M. safe_w w"
      "list_all harmless (program s)"
      using assms(2) complete(1) by (simp_all add: inv_safe_def)
    show ?thesis unfolding complete(4)
      using old th by (rule drain_safe) (simp_all add: a)
  next
    case (block M)
    then show ?thesis using assms(2) by (simp add: inv_safe_def)
  next
    case misuse
    then show ?thesis using assms(2) by (simp add: inv_safe_def)
  qed
next
  case (Owner c)
  from Owner(2) show ?thesis using assms(2)
  proof (cases rule: owner_cases)
    case returned
    have "list_all harmless (tl (program s))"
      using assms(2) by (cases "program s") (simp_all add: inv_safe_def)
    then show ?thesis using assms(2) returned by (simp add: inv_safe_def)
  qed (auto simp add: inv_safe_def add_same)
next
  case (Spurious_worker w)
  then show ?thesis using assms(2) by (simp add: inv_safe_def spurious_worker_tset)
next
  case Spurious_owner
  then show ?thesis using assms(2) by (simp add: inv_safe_def)
qed

lemma before_join_cong:
  "program s' = program s \<Longrightarrow> shutdown_request s' = shutdown_request s \<Longrightarrow>
   destroyed s' = destroyed s \<Longrightarrow> before_join s' = before_join s"
  by (simp add: before_join_def)

lemma drain_phase:
  assumes old: "tset s = add_mset old M"
    and th: "\<forall>v. image_mset norm_w (mset ((threads s)[w := v])) = add_mset (norm_w v) M"
    and ne: "\<not> ended old"
    and inv: "inv_phase s"
  shows "inv_phase (drain w s)"
proof -
  have P1: "client s \<noteq> CReady \<longrightarrow> (\<exists>rest. program s = Wait # rest)"
    and P2: "before_join s"
    and P3: "\<not> shutdown_request s \<longrightarrow> WExited \<notin># M"
    and P4: "failure s \<noteq> None \<longrightarrow> destroyed s"
    using inv ne old unfolding inv_phase_def by auto
  have Q: "before_join (drain w s)"
    using P2 before_join_cong [of "drain w s" s] by (simp add: drain_same)
  consider (run) f where "tset (drain w s) = add_mset (WRunning f (spawns f)) M"
      "client (drain w s) = client s"
    | (idle) "task_queue (drain w s) = []"
      "tset (drain w s) = add_mset (if shutdown_request s then WExited else WBlocking) M"
      "client (drain w s) = client s \<or> (client s = CWaiting \<and> client (drain w s) = CWoken)"
    using drain_effect [OF old th] by blast
  then show ?thesis
  proof cases
    case run
    show ?thesis
      unfolding inv_phase_def run drain_same using P1 P3 P4 Q by auto
  next
    case idle
    have c: "client (drain w s) \<noteq> CReady \<longrightarrow> (\<exists>rest. program s = Wait # rest)"
      using idle(3) P1 by auto
    show ?thesis
      unfolding inv_phase_def idle(1,2) drain_same using c P3 P4 Q by auto
  qed
qed

lemma inv_phase_fields [simp]:
  "inv_phase (s\<lparr>active := a\<rparr>) = inv_phase s"
  "inv_phase (s\<lparr>finished := l\<rparr>) = inv_phase s"
  by (simp_all add: inv_phase_def before_join_def)

lemma ended_threads:
  assumes "list_all (\<lambda>w. w = WExited \<or> w = WCrashed) (threads s)"
  shows "\<forall>w \<in># tset s. ended w"
  using assms by (auto simp add: tset_def list_all_iff)

lemma user_program_head:
  assumes "list_all user_call u" "u @ destructor = cm # rest"
  shows "(cm = Wait \<and> u = [] \<and> rest = [SetShutdown, NotifyAll, DestroyMembers, Join]) \<or>
         (user_call cm \<and> (\<exists>u'. u = cm # u' \<and> list_all user_call u' \<and> rest = u' @ destructor))"
  using assms by (cases u) (auto simp add: destructor_def)

lemma before_join_advance:
  assumes "before_join s" "program s = cm # rest" "cm = Wait \<or> (\<exists>f. cm = Push f)"
  shows "before_join (s\<lparr>program := rest\<rparr>)" "\<not> shutdown_request s" "\<not> destroyed s"
proof -
  obtain u where u: "list_all user_call u" "program s = u @ destructor" "\<not> shutdown_request s"
    "\<not> destroyed s"
    using assms unfolding before_join_def by auto
  show "\<not> shutdown_request s" by (rule u(3))
  show "\<not> destroyed s" by (rule u(4))
  have "(cm = Wait \<and> u = [] \<and> rest = [SetShutdown, NotifyAll, DestroyMembers, Join]) \<or>
         (user_call cm \<and> (\<exists>u'. u = cm # u' \<and> list_all user_call u' \<and> rest = u' @ destructor))"
    using u(1) by (rule user_program_head) (simp add: u(2) [symmetric] assms(2))
  then show "before_join (s\<lparr>program := rest\<rparr>)"
    using u(3,4) unfolding before_join_def by auto
qed

lemma step_inv_phase:
  assumes "step ev s = Some s'" "inv_phase s"
  shows "inv_phase s'"
  using assms(1)
proof (cases rule: step_cases)
  case (Worker w c)
  from Worker(2) show ?thesis
  proof (cases rule: worker_cases)
    case (enter M)
    let ?s1 = "s\<lparr>active := active s + 1\<rparr>"
    obtain old where old: "tset ?s1 = add_mset old M" "\<not> ended old"
      using enter(1) by auto
    have th: "\<forall>v. image_mset norm_w (mset ((threads ?s1)[w := v])) = add_mset (norm_w v) M"
      using enter(2) by simp
    show ?thesis unfolding enter(3)
      using old(1) th old(2) by (rule drain_phase) (simp add: assms(2))
  next
    case (push M f p ps)
    have "before_join s" using assms(2) push(1) unfolding inv_phase_def by auto
    then have "before_join s'"
      using before_join_cong [of s' s] by (simp add: push(4) add_same)
    then show ?thesis
      using assms(2) push(1) unfolding inv_phase_def push(2)
      by (auto simp add: push(4) add_same)
  next
    case (crash M f)
    have "before_join s" using assms(2) crash(1) unfolding inv_phase_def by auto
    then have "before_join s'"
      using before_join_cong [of s' s] by (simp add: crash(4))
    then show ?thesis
      using assms(2) crash(1) unfolding inv_phase_def crash(3)
      by (auto simp add: crash(4))
  next
    case (complete M f)
    let ?s1 = "s\<lparr>finished := finished s @ [f]\<rparr>"
    have old: "tset ?s1 = add_mset (WRunning f []) M" using complete(1) by simp
    have th: "\<forall>v. image_mset norm_w (mset ((threads ?s1)[w := v])) = add_mset (norm_w v) M"
      using complete(3) by simp
    show ?thesis unfolding complete(4)
      using old th by (rule drain_phase) (simp_all add: assms(2))
  next
    case (block M)
    have "before_join s" using assms(2) block(1) unfolding inv_phase_def by auto
    then have "before_join s'"
      using before_join_cong [of s' s] by (simp add: block(3))
    then show ?thesis
      using assms(2) block(1) unfolding inv_phase_def block(2)
      by (auto simp add: block(3))
  next
    case misuse
    have "before_join s' = before_join s"
      by (rule before_join_cong) (simp_all add: misuse(2))
    then show ?thesis
      using assms(2) misuse(1) unfolding inv_phase_def by (simp add: misuse(2))
  qed
next
  case (Owner c)
  from Owner(2) show ?thesis
  proof (cases rule: owner_cases)
    case returned
    obtain rest where rest: "program s = Wait # rest"
      using assms(2) returned(1) unfolding inv_phase_def by auto
    then have bj: "before_join s" using assms(2) unfolding inv_phase_def by auto
    have "before_join (s\<lparr>program := rest\<rparr>)" "\<not> shutdown_request s"
      using before_join_advance [OF bj rest] by simp_all
    then have "before_join s'"
      using before_join_cong [of s' "s\<lparr>program := rest\<rparr>"] by (simp add: returned(3) rest)
    then show ?thesis
      using assms(2) unfolding inv_phase_def by (auto simp add: returned(3))
  next
    case (push f rest)
    then have bj: "before_join s" using assms(2) unfolding inv_phase_def by auto
    have a: "before_join (s\<lparr>program := rest\<rparr>)" "\<not> shutdown_request s"
      using before_join_advance [OF bj push(2)] by simp_all
    then have "before_join s'"
      using before_join_cong [of s' "s\<lparr>program := rest\<rparr>"] by (simp add: push(4) add_same)
    then show ?thesis
      using assms(2) push(1) a(2) unfolding inv_phase_def
      by (simp add: push(4) add_same)
  next
    case (wait_block rest)
    have "before_join s' = before_join s"
      by (rule before_join_cong) (simp_all add: wait_block(5))
    then show ?thesis
      using assms(2) wait_block(2) unfolding inv_phase_def by (auto simp add: wait_block(5))
  next
    case (wait_pass rest)
    then have bj: "before_join s" using assms(2) unfolding inv_phase_def by auto
    have "before_join (s\<lparr>program := rest\<rparr>)"
      using before_join_advance [OF bj wait_pass(2)] by simp
    then show ?thesis
      using assms(2) wait_pass(1) unfolding inv_phase_def by (auto simp add: wait_pass(5))
  next
    case (set_flag rest)
    then have bj: "before_join s" using assms(2) unfolding inv_phase_def by auto
    then have "rest = [NotifyAll, DestroyMembers, Join] \<and> \<not> destroyed s"
      using set_flag(2) user_program_head [of _ SetShutdown rest]
      unfolding before_join_def by auto
    then have "before_join s'" by (simp add: before_join_def set_flag(3))
    then show ?thesis
      using assms(2) set_flag(1) unfolding inv_phase_def by (auto simp add: set_flag(3))
  next
    case (wake_all rest)
    then have bj: "before_join s" using assms(2) unfolding inv_phase_def by auto
    then have "rest = [DestroyMembers, Join] \<and> shutdown_request s \<and> \<not> destroyed s"
      using wake_all(2) user_program_head [of _ NotifyAll rest]
      unfolding before_join_def by auto
    then have "before_join s'" by (simp add: before_join_def wake_all(3))
    then show ?thesis
      using assms(2) wake_all(1) unfolding inv_phase_def by (auto simp add: wake_all(3))
  next
    case (destroy rest)
    then have bj: "before_join s" using assms(2) unfolding inv_phase_def by auto
    then have "rest = [Join] \<and> shutdown_request s"
      using destroy(2) user_program_head [of _ DestroyMembers rest]
      unfolding before_join_def by auto
    then have "before_join s'" by (simp add: before_join_def destroy(3))
    then show ?thesis
      using assms(2) destroy(1) unfolding inv_phase_def by (auto simp add: destroy(3))
  next
    case (join rest)
    then have bj: "before_join s" using assms(2) unfolding inv_phase_def by auto
    then have "rest = [] \<and> shutdown_request s \<and> destroyed s"
      using join(2) user_program_head [of _ Join rest]
      unfolding before_join_def by auto
    moreover have "\<forall>w \<in># tset s. ended w" using join(3) by (rule ended_threads)
    ultimately show ?thesis
      using assms(2) join(1) unfolding inv_phase_def by (auto simp add: join(4))
  next
    case misuse
    have "before_join s' = before_join s"
      by (rule before_join_cong) (simp_all add: misuse(2))
    then show ?thesis
      using assms(2) misuse(1) unfolding inv_phase_def by (simp add: misuse(2))
  qed
next
  case (Spurious_worker w)
  then have "tset s' = tset s" by (simp add: spurious_worker_tset)
  moreover have "before_join s' = before_join s"
    by (rule before_join_cong) (simp_all add: Spurious_worker(4))
  ultimately show ?thesis using assms(2) unfolding inv_phase_def
    by (simp add: Spurious_worker(4))
next
  case Spurious_owner
  have "before_join s' = before_join s"
    by (rule before_join_cong) (simp_all add: Spurious_owner(3))
  then show ?thesis using assms(2) Spurious_owner(2) unfolding inv_phase_def
    by (auto simp add: Spurious_owner(3))
qed

text \<open>A task in the queue of a pool that is in use has a worker that will come to it.\<close>

lemma awake_in_update:
  assumes "w < length ws" "awake v"
  shows "\<exists>x \<in> set (ws[w := v]). awake x"
proof -
  have "v \<in> set (ws[w := v])" using assms(1) by (rule set_update_memI)
  then show ?thesis using assms(2) by blast
qed

lemma blocking_update:
  assumes "WBlocking \<notin> set ws" "v \<noteq> WBlocking"
  shows "WBlocking \<notin> set (ws[w := v])"
proof
  assume "WBlocking \<in> set (ws[w := v])"
  then have "WBlocking \<in> insert v (set ws)"
    using set_update_subset_insert [of ws w v] by (rule rev_subsetD)
  then show False using assms by simp
qed

lemma waiting_workers_nonempty: "WWaiting \<in> set ws \<Longrightarrow> waiting_workers ws k \<noteq> []"
  by (induction ws arbitrary: k) auto

lemma notify_one_wakes:
  assumes "WWaiting \<in> set ws"
  shows "WWoken \<in> set (notify_one c ws)"
proof -
  obtain i js where ij: "waiting_workers ws 0 = i # js"
    using waiting_workers_nonempty [OF assms, of 0] by (cases "waiting_workers ws 0") auto
  let ?j = "(i # js) ! (c mod length (i # js))"
  have "?j \<in> set (waiting_workers ws 0)"
    unfolding ij by (rule nth_mem) simp
  then have "?j < length ws"
    using waiting_workers_elem [of ?j ws 0] by simp
  moreover have "notify_one c ws = ws[?j := WWoken]" by (simp add: notify_one_def ij)
  ultimately show ?thesis by (simp add: set_update_memI)
qed

lemma awake_notify_one:
  assumes "\<exists>x \<in> set ws. awake x"
  shows "\<exists>x \<in> set (notify_one c ws). awake x"
proof -
  consider "notify_one c ws = ws"
    | i where "i < length ws" "ws ! i = WWaiting" "notify_one c ws = ws[i := WWoken]"
    using notify_one_cases by blast
  then show ?thesis
  proof cases
    case 1
    then show ?thesis using assms by simp
  next
    case 2
    show ?thesis unfolding 2(3) using 2(1) by (rule awake_in_update) simp
  qed
qed

lemma awake_notify_all:
  assumes "\<exists>x \<in> set ws. awake x"
  shows "\<exists>x \<in> set (notify_all ws). awake x"
proof -
  obtain x where x: "x \<in> set ws" "awake x" using assms by blast
  have ne: "x \<noteq> WWaiting" using x(2) by auto
  have "x \<in> (\<lambda>w. if w = WWaiting then WWoken else w) ` set ws"
    using x(1) by (rule rev_image_eqI) (simp add: ne)
  then have "x \<in> set (notify_all ws)" by (simp add: notify_all_def)
  then show ?thesis using x(2) by blast
qed

lemma blocking_notify_all: "WBlocking \<in> set (notify_all ws) \<longleftrightarrow> WBlocking \<in> set ws"
  by (induction ws) (simp_all add: notify_all_def)

lemma tset_member: "x \<in> set (threads s) \<Longrightarrow> norm_w x \<in># tset s"
  by (simp add: tset_def)

lemma drain_live:
  assumes "lock_free s" "w < length (threads s)"
  shows "inv_live (drain w s)"
proof -
  have nb: "WBlocking \<notin> set (threads s)" using assms(1) by (simp add: lock_free_def)
  consider (run) f q where "task_queue s = f # q"
      "threads (drain w s) = (threads s)[w := WRunning f (spawns f)]"
    | (idle) "task_queue (drain w s) = []"
    using drain_list [of s w] by blast
  then show ?thesis
  proof cases
    case run
    have "WBlocking \<notin> set (threads (drain w s))"
      unfolding run(2) using nb by (rule blocking_update) simp
    moreover have "\<exists>x \<in> set (threads (drain w s)). awake x"
      unfolding run(2) using assms(2) by (rule awake_in_update) simp
    ultimately show ?thesis by (simp add: inv_live_def)
  next
    case idle
    then show ?thesis by (simp add: inv_live_def)
  qed
qed

lemma step_inv_live:
  assumes st: "step ev s = Some s'" and cnt: "inv_count n s" and n: "0 < n"
    and safe: "inv_safe s" and ph: "inv_phase s" and live: "inv_live s"
  shows "inv_live s'"
  using st
proof (cases rule: step_cases)
  case (Worker w c)
  from Worker(2) show ?thesis
  proof (cases rule: worker_cases)
    case (enter M)
    show ?thesis unfolding enter(3)
      by (rule drain_live) (use enter(4,6) in \<open>simp_all add: lock_free_def\<close>)
  next
    case (push M f p ps)
    have nb: "WBlocking \<notin> set (threads s)" using push(3) by (simp add: lock_free_def)
    have th: "threads s' = notify_one c ((threads s)[w := WRunning f ps])"
      by (simp add: push(4) add_same)
    have "WBlocking \<notin> set ((threads s)[w := WRunning f ps])"
      using nb by (rule blocking_update) simp
    then have "WBlocking \<notin> set (threads s')"
      unfolding th by (simp add: blocking_notify_one)
    moreover have "\<exists>x \<in> set ((threads s)[w := WRunning f ps]). awake x"
      using push(6) by (rule awake_in_update) simp
    then have "\<exists>x \<in> set (threads s'). awake x"
      unfolding th by (rule awake_notify_one)
    ultimately show ?thesis by (simp add: inv_live_def)
  next
    case (crash M f)
    have "safe_w (WRunning f [])" using safe crash(1) by (simp add: inv_safe_def)
    then show ?thesis using crash(2) by simp
  next
    case (complete M f)
    show ?thesis unfolding complete(4)
      by (rule drain_live) (use complete(5,7) in \<open>simp_all add: lock_free_def\<close>)
  next
    case (block M)
    have "WBlocking \<in> set (threads s)" using block(5,6) by (metis nth_mem)
    then have "task_queue s = []" using live by (simp add: inv_live_def)
    then show ?thesis by (simp add: inv_live_def block(3))
  next
    case misuse
    then show ?thesis using live by (simp add: inv_live_def)
  qed
next
  case (Owner c)
  from Owner(2) show ?thesis
  proof (cases rule: owner_cases)
    case returned
    then show ?thesis using live by (simp add: inv_live_def)
  next
    case (push f rest)
    have nb: "WBlocking \<notin> set (threads s)" using push(3) by (simp add: lock_free_def)
    have th: "threads s' = notify_one c (threads s)" by (simp add: push(4) add_same)
    have bj: "before_join s" using ph push(2) unfolding inv_phase_def by auto
    have ns: "\<not> shutdown_request s" using before_join_advance(2) [OF bj push(2)] by simp
    have "WBlocking \<notin> set (threads s')" unfolding th using nb by (simp add: blocking_notify_one)
    moreover have "\<exists>x \<in> set (threads s'). awake x"
    proof (cases "WWaiting \<in> set (threads s)")
      case True
      then have "WWoken \<in> set (threads s')" unfolding th by (rule notify_one_wakes)
      moreover have "awake WWoken" by simp
      ultimately show ?thesis by blast
    next
      case False
      have "size (tset s) = n" using cnt by (simp add: inv_count_def)
      then have "threads s \<noteq> []" using n by (auto simp add: tset_def)
      then obtain x where x: "x \<in> set (threads s)" by (cases "threads s") auto
      have nx: "norm_w x \<in># tset s" using x by (rule tset_member)
      have "x \<noteq> WExited" using ph ns nx unfolding inv_phase_def by auto
      moreover have "x \<noteq> WCrashed" using safe nx unfolding inv_safe_def by auto
      moreover have "x \<noteq> WWaiting" "x \<noteq> WBlocking" using x False nb by auto
      ultimately have "awake x" by (cases x) simp_all
      then have "\<exists>x \<in> set (threads s). awake x" using x by blast
      then show ?thesis unfolding th by (rule awake_notify_one)
    qed
    ultimately show ?thesis by (simp add: inv_live_def)
  next
    case (wait_block rest)
    then show ?thesis using live by (simp add: inv_live_def)
  next
    case (wait_pass rest)
    then show ?thesis using live by (simp add: inv_live_def)
  next
    case (set_flag rest)
    then show ?thesis using live by (simp add: inv_live_def)
  next
    case (wake_all rest)
    then show ?thesis using live awake_notify_all [of "threads s"]
      by (simp add: inv_live_def blocking_notify_all)
  next
    case (destroy rest)
    then show ?thesis by (simp add: inv_live_def)
  next
    case (join rest)
    then show ?thesis using live by (simp add: inv_live_def)
  next
    case misuse
    then show ?thesis using live by (simp add: inv_live_def)
  qed
next
  case (Spurious_worker w)
  have "\<exists>x \<in> set (threads s'). awake x"
    unfolding Spurious_worker(4) using Spurious_worker(2) awake_in_update [of w "threads s" WWoken]
    by simp
  moreover have "WBlocking \<in> set (threads s') \<longrightarrow> WBlocking \<in> set (threads s)"
    unfolding Spurious_worker(4) using set_update_subset_insert [of "threads s" w WWoken]
    by auto
  ultimately show ?thesis using live by (simp add: inv_live_def Spurious_worker(4))
next
  case Spurious_owner
  then show ?thesis using live by (simp add: inv_live_def)
qed






lemma initial_invs:
  "inv_count n (thread_pool n made)" "inv_logs (thread_pool n made)"
  "list_all user_call made \<Longrightarrow> inv_phase (thread_pool n made)"
  "list_all harmless made \<Longrightarrow> inv_safe (thread_pool n made)"
  "inv_live (thread_pool n made)"
proof -
  have T: "tset (thread_pool n made) = replicate_mset n WStart"
    by (simp add: tset_def thread_pool_def)
  show "inv_count n (thread_pool n made)"
    unfolding inv_count_def T by (simp add: thread_pool_def)
  show "inv_logs (thread_pool n made)"
    unfolding inv_logs_def T by (simp add: thread_pool_def)
  show "inv_phase (thread_pool n made)" if "list_all user_call made"
    unfolding inv_phase_def before_join_def T using that by (auto simp add: thread_pool_def)
  show "inv_safe (thread_pool n made)" if "list_all harmless made"
    unfolding inv_safe_def T using that by (simp add: thread_pool_def destructor_def)
  show "inv_live (thread_pool n made)"
    by (simp add: inv_live_def thread_pool_def)
qed

lemma run_invariant:
  assumes "\<And>ev s s'. step ev s = Some s' \<Longrightarrow> P s \<Longrightarrow> P s'"
    and "run evs s = Some s'" "P s"
  shows "P s'"
  using assms(2,3)
proof (induction evs arbitrary: s)
  case Nil
  then show ?case by simp
next
  case (Cons ev evs)
  then obtain s1 where s1: "step ev s = Some s1" "run evs s1 = Some s'"
    by (auto split: option.splits)
  then show ?case using Cons.IH [of s1] assms(1) [OF s1(1)] Cons.prems(2) by blast
qed

lemma reachable_invs:
  assumes "reachable n made s"
  shows "inv_count n s" "inv_logs s"
    "list_all user_call made \<Longrightarrow> inv_phase s"
    "list_all harmless made \<Longrightarrow> inv_safe s"
    "list_all user_call made \<Longrightarrow> list_all harmless made \<Longrightarrow> 0 < n \<Longrightarrow> inv_live s"
proof -
  obtain evs where r: "run evs (thread_pool n made) = Some s"
    using assms unfolding reachable_def by blast
  show "inv_count n s"
    using step_inv_count r initial_invs(1) by (rule run_invariant)
  show "inv_logs s"
    using step_inv_logs r initial_invs(2) by (rule run_invariant)
  show "inv_phase s" if "list_all user_call made"
    using step_inv_phase r initial_invs(3) [OF that] by (rule run_invariant)
  show "inv_safe s" if "list_all harmless made"
    using step_inv_safe r initial_invs(4) [OF that] by (rule run_invariant)
  show "inv_live s" if u: "list_all user_call made" and h: "list_all harmless made" and n: "0 < n"
  proof -
    let ?P = "\<lambda>s. inv_count n s \<and> inv_safe s \<and> inv_phase s \<and> inv_live s"
    have "?P s"
    proof (rule run_invariant [where P = ?P, OF _ r])
      show "?P (thread_pool n made)"
        using initial_invs(1) [of n made] initial_invs(3) [OF u, of n]
          initial_invs(4) [OF h, of n] initial_invs(5) [of n made] by simp
    next
      fix ev s s'
      assume "step ev s = Some s'" "?P s"
      then show "?P s'"
        using step_inv_count step_inv_safe step_inv_phase step_inv_live [OF _ _ n] by blast
    qed
    then show ?thesis by simp
  qed
qed









text \<open>What holds once the destructor of the pool has returned.\<close>

lemma ended_norm: "ended (norm_w w) \<longleftrightarrow> w = WExited \<or> w = WCrashed"
  by (cases w) simp_all

lemma all_ended_threads:
  "(\<forall>w \<in># tset s. ended w) \<longleftrightarrow> list_all (\<lambda>w. w = WExited \<or> w = WCrashed) (threads s)"
  by (simp add: tset_def list_all_iff ended_norm)

lemma destructor_returned:
  assumes reach: "reachable n made s" and user: "list_all user_call made"
    and fin: "program s = []"
  shows "shutdown_request s" "destroyed s"
    "list_all (\<lambda>w. w = WExited \<or> w = WCrashed) (threads s)"
proof -
  have ph: "inv_phase s" using reachable_invs(3) [OF reach user] .
  have nb: "\<not> before_join s" using fin by (simp add: before_join_def destructor_def)
  then have e: "shutdown_request s" "destroyed s" "\<forall>w \<in># tset s. ended w"
    using ph unfolding inv_phase_def by auto
  show "shutdown_request s" by (rule e(1))
  show "destroyed s" by (rule e(2))
  show "list_all (\<lambda>w. w = WExited \<or> w = WCrashed) (threads s)"
    using e(3) by (simp add: all_ended_threads)
qed

subsection \<open>The claims about the pool\<close>



lemma notify_one_keeps:
  assumes "w < length ws" "ws ! w \<noteq> WWaiting"
  shows "notify_one c ws ! w = ws ! w"
proof -
  consider "notify_one c ws = ws"
    | i where "i < length ws" "ws ! i = WWaiting" "notify_one c ws = ws[i := WWoken]"
    using notify_one_cases by blast
  then show ?thesis
  proof cases
    case 1
    then show ?thesis by simp
  next
    case 2
    then have "i \<noteq> w" using assms(2) by auto
    then show ?thesis using 2(3) by simp
  qed
qed

lemma drain_threads:
  "\<exists>v. threads (drain w s) = (threads s)[w := v]"
  by (cases "task_queue s") (auto simp add: drain_def Let_def)

lemma crashed_stays:
  assumes st: "step ev s = Some s'" and w: "w < length (threads s)"
    and cr: "threads s ! w = WCrashed"
  shows "w < length (threads s') \<and> threads s' ! w = WCrashed"
  using st
proof (cases rule: step_cases)
  case (Worker w' c)
  have ne: "w' \<noteq> w"
  proof
    assume "w' = w"
    then show False using Worker(2) w cr by (simp add: worker_def)
  qed
  have upd: "\<And>v. (threads s)[w' := v] ! w = WCrashed \<and> w < length ((threads s)[w' := v])"
    using ne w cr by simp
  from Worker(2) show ?thesis
  proof (cases rule: worker_cases)
    case (enter M)
    obtain v where "threads s' = (threads s)[w' := v]"
      unfolding enter(3) using drain_threads [of w' "s\<lparr>active := active s + 1\<rparr>"] by auto
    then show ?thesis using upd by simp
  next
    case (push M f p ps)
    have "threads s' = notify_one c ((threads s)[w' := WRunning f ps])"
      by (simp add: push(4) add_same)
    then show ?thesis
      using upd [of "WRunning f ps"] notify_one_keeps [of w "(threads s)[w' := WRunning f ps]" c]
      by simp
  next
    case (crash M f)
    then show ?thesis using upd by simp
  next
    case (complete M f)
    obtain v where "threads s' = (threads s)[w' := v]"
      unfolding complete(4) using drain_threads [of w' "s\<lparr>finished := finished s @ [f]\<rparr>"] by auto
    then show ?thesis using upd by simp
  next
    case (block M)
    then show ?thesis using upd by simp
  next
    case misuse
    then show ?thesis using w cr by simp
  qed
next
  case (Owner c)
  from Owner(2) show ?thesis
  proof (cases rule: owner_cases)
    case (push f rest)
    then have "threads s' = notify_one c (threads s)" by (simp add: add_same)
    then show ?thesis using w cr notify_one_keeps [of w "threads s" c] by simp
  next
    case (wake_all rest)
    then show ?thesis using w cr by (simp add: notify_all_def)
  qed (use w cr in simp_all)
next
  case (Spurious_worker w')
  then have "w' \<noteq> w" using cr by auto
  then show ?thesis using Spurious_worker(4) w cr by simp
next
  case Spurious_owner
  then show ?thesis using w cr by simp
qed

lemma crashed_forever:
  assumes "run evs s = Some s'" "w < length (threads s)" "threads s ! w = WCrashed"
  shows "w < length (threads s') \<and> threads s' ! w = WCrashed"
  using assms
proof (induction evs arbitrary: s)
  case Nil
  then show ?case by simp
next
  case (Cons ev evs)
  then obtain s1 where s1: "step ev s = Some s1" "run evs s1 = Some s'"
    by (auto split: option.splits)
  show ?case using Cons.IH [OF s1(2)] crashed_stays [OF s1(1) Cons.prems(2,3)] by blast
qed

lemma crashed_active:
  assumes "reachable n made s" "w < length (threads s)" "threads s ! w = WCrashed"
  shows "0 < active s"
proof -
  have "WCrashed \<in> set (threads s)" using assms(2,3) by (metis nth_mem)
  then have "norm_w WCrashed \<in># tset s" by (rule tset_member)
  then obtain M where "tset s = add_mset WCrashed M" by (metis multi_member_split norm_w.simps(7))
  then show ?thesis using reachable_invs(1) [OF assms(1)] by (simp add: inv_count_def)
qed

lemma crashed_counted:
  assumes "inv_count n s" "w < length (threads s)" "threads s ! w = WCrashed"
  shows "0 < active s"
proof -
  have "WCrashed \<in> set (threads s)" using assms(2,3) by (metis nth_mem)
  then have "norm_w WCrashed \<in># tset s" by (rule tset_member)
  then obtain M where "tset s = add_mset WCrashed M" by (metis multi_member_split norm_w.simps(7))
  then show ?thesis using assms(1) by (simp add: inv_count_def)
qed



text \<open>
  C3: \<^emph>\<open>\<open>wait()\<close> returns only after every task submitted before the call has completed;
  it never returns while such a task is still pending or running.\<close>  \<open>wait()\<close> tests
  the queue and \<open>active\<close> once (\<open>if\<close>, not \<open>while\<close>) and returns when \<open>wait_cv.wait\<close>
  returns, for whatever reason.  One worker, one task pushed, then \<open>wait()\<close>: the owner
  finds the queue non-empty and blocks; the wait on the condition variable returns
  without a notification; \<open>wait()\<close> returns, the owner is at the next statement of its
  program, and the task is still in the queue, never started.
\<close>

theorem wait_returns_early:
  "run [Owner 0, Owner 0, Spurious_owner, Owner 0]
     (thread_pool 1 [Push (Task 7 [123, 456] [] False), Wait]) =
   Some \<lparr>task_queue = [Task 7 [123, 456] [] False], active = 0, shutdown_request = False,
         threads = [WStart], client = CReady,
         program = [Wait, SetShutdown, NotifyAll, DestroyMembers, Join],
         destroyed = False, failure = None,
         submitted = [Task 7 [123, 456] [] False], started = [], finished = [],
         discarded = []\<rparr>"
  by code_simp

text \<open>
  C5 as stated (\<^emph>\<open>a throwing task is caught at the task-execution boundary, the worker
  keeps processing, the control state stays consistent\<close>) fails: \<open>worker\<close> has no
  handler.  One worker, a throwing task and a second task: after the first task has
  thrown, the only worker has left \<open>worker()\<close>, \<open>active\<close> is 1 with nothing running, and
  the second task stays in the queue.
\<close>

theorem throwing_task_counterexample:
  "run [Owner 0, Owner 0, Worker 0 0, Worker 0 0]
     (thread_pool 1 [Push (Task 9 [] [] True), Push (Task 7 [123, 456] [] False)]) =
   Some \<lparr>task_queue = [Task 7 [123, 456] [] False], active = 1, shutdown_request = False,
         threads = [WCrashed], client = CReady,
         program = [Wait, SetShutdown, NotifyAll, DestroyMembers, Join],
         destroyed = False, failure = None,
         submitted = [Task 9 [] [] True, Task 7 [123, 456] [] False],
         started = [Task 9 [] [] True], finished = [Task 9 [] [] True], discarded = []\<rparr>"
  by code_simp

text \<open>
  C5, amended: a task that throws in fire-and-forget mode is not caught.  The step of
  the worker that runs it leaves the queue, \<open>active\<close> and the shutdown flag as they are
  and ends that worker thread; whatever happens afterwards, that thread takes no further
  task and \<open>active\<close> never returns to zero.
\<close>

theorem throwing_task_ends_worker:
  assumes reach: "reachable n made s"
    and w: "w < length (threads s)" and r: "threads s ! w = WRunning f []"
    and th: "throws f"
  shows "worker w c s =
           Some (s\<lparr>threads := (threads s)[w := WCrashed], finished := finished s @ [f]\<rparr>) \<and>
         (\<forall>evs s'.
            run evs (s\<lparr>threads := (threads s)[w := WCrashed], finished := finished s @ [f]\<rparr>)
              = Some s' \<longrightarrow>
            threads s' ! w = WCrashed \<and> 0 < active s')"
proof -
  let ?s1 = "s\<lparr>threads := (threads s)[w := WCrashed], finished := finished s @ [f]\<rparr>"
  have wk: "worker w c s = Some ?s1" using w r th by (simp add: worker_def)
  have ic: "inv_count n s" using reach by (rule reachable_invs(1))
  obtain M where M: "tset s = add_mset (norm_w (threads s ! w)) M"
    "\<forall>v. image_mset norm_w (mset ((threads s)[w := v])) = add_mset (norm_w v) M"
    using thread_split [OF w] by blast
  have "tset ?s1 = add_mset WCrashed M" using M(2) by (simp add: tset_def)
  then have i1: "inv_count n ?s1" using ic M(1) r by (simp add: inv_count_def)
  have c1: "w < length (threads ?s1)" "threads ?s1 ! w = WCrashed" using w by simp_all
  have "threads s' ! w = WCrashed \<and> 0 < active s'" if "run evs ?s1 = Some s'" for evs s'
  proof -
    have a: "w < length (threads s') \<and> threads s' ! w = WCrashed"
      using that c1 by (rule crashed_forever)
    moreover have "inv_count n s'" using step_inv_count that i1 by (rule run_invariant)
    ultimately show ?thesis using crashed_counted by blast
  qed
  then show ?thesis using wk by blast
qed

text \<open>A pool of one worker that has just taken a throwing task from the queue.\<close>

theorem throwing_task_ends_worker_witness:
  "reachable 1 [Push (Task 9 [] [] True)]
     \<lparr>task_queue = [], active = 1, shutdown_request = False,
      threads = [WRunning (Task 9 [] [] True) []], client = CReady,
      program = [Wait, SetShutdown, NotifyAll, DestroyMembers, Join],
      destroyed = False, failure = None,
      submitted = [Task 9 [] [] True], started = [Task 9 [] [] True], finished = [],
      discarded = []\<rparr> \<and>
   throws (Task 9 [] [] True) \<and>
   worker 0 0
     \<lparr>task_queue = [], active = 1, shutdown_request = False,
      threads = [WRunning (Task 9 [] [] True) []], client = CReady,
      program = [Wait, SetShutdown, NotifyAll, DestroyMembers, Join],
      destroyed = False, failure = None,
      submitted = [Task 9 [] [] True], started = [Task 9 [] [] True], finished = [],
      discarded = []\<rparr> =
   Some \<lparr>task_queue = [], active = 1, shutdown_request = False,
      threads = [WCrashed], client = CReady,
      program = [Wait, SetShutdown, NotifyAll, DestroyMembers, Join],
      destroyed = False, failure = None,
      submitted = [Task 9 [] [] True], started = [Task 9 [] [] True],
      finished = [Task 9 [] [] True], discarded = []\<rparr>"
proof -
  let ?s = "\<lparr>task_queue = [], active = 1, shutdown_request = False,
      threads = [WRunning (Task 9 [] [] True) []], client = CReady,
      program = [Wait, SetShutdown, NotifyAll, DestroyMembers, Join],
      destroyed = False, failure = None,
      submitted = [Task 9 [] [] True], started = [Task 9 [] [] True], finished = [],
      discarded = []\<rparr>"
  have "run [Owner 0, Worker 0 0] (thread_pool 1 [Push (Task 9 [] [] True)]) = Some ?s"
    by code_simp
  then have h1: "reachable 1 [Push (Task 9 [] [] True)] ?s" unfolding reachable_def by blast
  have h2: "0 < length (threads ?s)" by simp
  have h3: "threads ?s ! 0 = WRunning (Task 9 [] [] True) []" by simp
  have h4: "throws (Task 9 [] [] True)" by simp
  show ?thesis using throwing_task_ends_worker [OF h1 h2 h3 h4, of 0] h1 h4 by simp
qed

text \<open>
  C4: \<^emph>\<open>the destructor first performs an internal \<open>wait()\<close> until quiescence, then
  sets the shutdown flag, wakes all workers and does not return until every worker
  thread has exited; teardown never completes while any task is still pending or
  running.\<close>  The
  destructor's \<open>wait()\<close> is the \<open>wait()\<close> of C3 and returns on any wake-up; nothing after
  it looks at the queue again.  First run, one worker and one task: the owner pushes the
  task and enters the destructor, \<open>wait()\<close> blocks and returns without a notification,
  the flag is stored, the workers are notified and the members are destroyed; the task,
  which no worker has started, is destroyed in the queue, and the worker has still to
  take its first step, on a mutex that no longer exists.  Second run, a throwing task
  and a second task: the only worker has ended with the first task, so the futures in
  \<open>threads\<close> do not block either, and the destructor returns with the second task never
  run.
\<close>

theorem teardown_discards_pending_task:
  "run [Owner 0, Owner 0, Spurious_owner, Owner 0, Owner 0, Owner 0, Owner 0]
     (thread_pool 1 [Push (Task 7 [123, 456] [] False)]) =
   Some \<lparr>task_queue = [], active = 0, shutdown_request = True,
         threads = [WStart], client = CReady, program = [Join],
         destroyed = True, failure = None,
         submitted = [Task 7 [123, 456] [] False], started = [], finished = [],
         discarded = [Task 7 [123, 456] [] False]\<rparr> \<and>
   run [Owner 0, Owner 0, Worker 0 0, Worker 0 0, Owner 0, Spurious_owner, Owner 0, Owner 0,
        Owner 0, Owner 0, Owner 0]
     (thread_pool 1 [Push (Task 9 [] [] True), Push (Task 7 [123, 456] [] False)]) =
   Some \<lparr>task_queue = [], active = 1, shutdown_request = True,
         threads = [WCrashed], client = CReady, program = [],
         destroyed = True, failure = None,
         submitted = [Task 9 [] [] True, Task 7 [123, 456] [] False],
         started = [Task 9 [] [] True], finished = [Task 9 [] [] True],
         discarded = [Task 7 [123, 456] [] False]\<rparr>"
  by code_simp



lemma no_workers_step:
  assumes "step ev s = Some s'" "threads s = [] \<and> started s = []"
  shows "threads s' = [] \<and> started s' = []"
  using assms(1)
proof (cases rule: step_cases)
  case (Worker w c)
  then show ?thesis using assms(2) by (simp add: worker_def)
next
  case (Owner c)
  from Owner(2) show ?thesis using assms(2)
    by (cases rule: owner_cases) (simp_all add: add_def notify_one_def notify_all_def)
next
  case (Spurious_worker w)
  then show ?thesis using assms(2) by simp
next
  case Spurious_owner
  then show ?thesis using assms(2) by simp
qed

lemma no_workers_never_start:
  assumes "reachable 0 made s"
  shows "threads s = [] \<and> started s = []"
proof -
  obtain evs where r: "run evs (thread_pool 0 made) = Some s"
    using assms unfolding reachable_def by blast
  have i: "threads (thread_pool 0 made) = [] \<and> started (thread_pool 0 made) = []"
    by (simp add: thread_pool_def)
  show ?thesis using no_workers_step r i by (rule run_invariant)
qed

section \<open>Properties of mt::sort on the pool\<close>

lemma sort_step_Inr:
  assumes "sort_step exec ev (s, a) = Some (Inr (s', a'))"
  obtains (plain) "step ev s = Some s'" "failure s' = None" "a' = a"
      "body_entered ev s s' = None"
    | (body) s1 w f pushed where "step ev s = Some s1" "failure s1 = None"
      "body_entered ev s s1 = Some (w, f)" "exec (bound_range f) a = Inr (a', pushed)"
      "s' = s1\<lparr>threads := (threads s1)[w := WRunning f (map bind_quick_sort pushed)]\<rparr>"
  using assms
  by (auto simp add: sort_step_def split: option.splits sum.splits prod.splits)

lemma allowed_update:
  assumes "\<forall>x \<in> set ws. P x" "P v"
  shows "\<forall>x \<in> set (ws[w := v]). P x"
  using assms set_update_subset_insert [of ws w v] by auto

lemma allowed_notify_one:
  assumes "\<forall>x \<in> set ws. P x" "P WWoken"
  shows "\<forall>x \<in> set (notify_one c ws). P x"
proof -
  consider "notify_one c ws = ws"
    | i where "i < length ws" "ws ! i = WWaiting" "notify_one c ws = ws[i := WWoken]"
    using notify_one_cases by blast
  then show ?thesis
  proof cases
    case 1
    then show ?thesis using assms by simp
  next
    case 2
    show ?thesis unfolding 2(3) using assms by (rule allowed_update)
  qed
qed

lemma allowed_notify_all:
  assumes "\<forall>x \<in> set ws. P x" "P WWoken"
  shows "\<forall>x \<in> set (notify_all ws). P x"
  using assms by (induction ws) (simp_all add: notify_all_def)

lemma root_pending_step:
  assumes st: "step ev s = Some s'" and nf: "failure s' = None"
    and inv: "root_pending root s"
  shows "(started s' = [] \<and> root_pending root s') \<or>
         (started s' = [root] \<and> (\<exists>w c. ev = Worker w c))"
proof -
  let ?ok = "\<lambda>x. x = WStart \<or> x = WBlocking \<or> x = WWaiting \<or> x = WWoken"
  have I: "started s = []" "failure s = None" "threads s \<noteq> []"
    "\<forall>x \<in> set (threads s). ?ok x"
    "client s \<noteq> CReady \<longrightarrow> (\<exists>rest. program s = Wait # rest)"
    using inv unfolding root_pending_def by blast+
  have ph: "(program s = Push root # destructor \<and> task_queue s = [] \<and>
         \<not> shutdown_request s \<and> \<not> destroyed s) \<or>
      ((program s = destructor \<or> program s = [SetShutdown, NotifyAll, DestroyMembers, Join] \<or>
        program s = [NotifyAll, DestroyMembers, Join] \<or> program s = [DestroyMembers, Join]) \<and>
         task_queue s = [root] \<and> \<not> destroyed s) \<or>
      (program s = [Join] \<and> destroyed s)"
    using inv unfolding root_pending_def by blast
  from st show ?thesis
  proof (cases rule: step_cases)
    case (Worker w c)
    from Worker(2) show ?thesis
    proof (cases rule: worker_cases)
      case (enter M)
      show ?thesis
      proof (cases "task_queue s")
        case Nil
        then have p1: "program s = Push root # destructor" "\<not> shutdown_request s"
          using ph enter(5) by auto
        then have cr: "client s = CReady" using I(5) by auto
        have s': "s' = s\<lparr>active := active s, client := CReady,
            threads := (threads s)[w := WBlocking]\<rparr>"
          using Nil p1(2) cr by (simp add: enter(3) drain_def Let_def notify_all_wait_def)
        have "\<forall>x \<in> set ((threads s)[w := WBlocking]). ?ok x"
          using I(4) by (rule allowed_update) simp
        then have "root_pending root s'"
          unfolding root_pending_def using I p1 Nil enter(5) by (simp add: s')
        then show ?thesis using I(1) by (simp add: s')
      next
        case (Cons f q)
        then have "f = root" using ph enter(5) by auto
        then have "started s' = [root]" using Cons I(1) by (simp add: enter(3) drain_def)
        then show ?thesis using Worker(1) by blast
      qed
    next
      case (push M f p ps)
      have "threads s ! w \<in> set (threads s)" using push(6) by simp
      then show ?thesis using I(4) push(7) by auto
    next
      case (crash M f)
      have "threads s ! w \<in> set (threads s)" using crash(5) by simp
      then show ?thesis using I(4) crash(6) by auto
    next
      case (complete M f)
      have "threads s ! w \<in> set (threads s)" using complete(7) by simp
      then show ?thesis using I(4) complete(8) by auto
    next
      case (block M)
      have "\<forall>x \<in> set ((threads s)[w := WWaiting]). ?ok x"
        using I(4) by (rule allowed_update) simp
      then have "root_pending root s'"
        unfolding root_pending_def using I ph by (simp add: block(3))
      then show ?thesis using I(1) by (simp add: block(3))
    next
      case misuse
      then show ?thesis using nf by simp
    qed
  next
    case (Owner c)
    from Owner(2) show ?thesis
    proof (cases rule: owner_cases)
      case returned
      then obtain rest where "program s = Wait # rest" using I(5) by auto
      then have p: "program s = destructor" "task_queue s = [root]"
        using ph by (auto simp add: destructor_def)
      have "root_pending root s'"
        unfolding root_pending_def using I p returned(4)
        by (simp add: returned(3) destructor_def)
      then show ?thesis using I(1) by (simp add: returned(3))
    next
      case (push f rest)
      then have p: "f = root" "rest = destructor" "task_queue s = []" "\<not> shutdown_request s"
        using ph by (auto simp add: destructor_def)
      have "\<forall>x \<in> set (notify_one c (threads s)). ?ok x"
        using I(4) by (rule allowed_notify_one) simp
      moreover have "notify_one c (threads s) \<noteq> []"
        using I(3) length_notify_one [of c "threads s"] by (metis length_0_conv)
      ultimately have "root_pending root s'"
        unfolding root_pending_def using I p push(1,5)
        by (simp add: push(4) add_same)
      then show ?thesis using I(1) by (simp add: push(4) add_same)
    next
      case (wait_block rest)
      have "root_pending root s'"
        unfolding root_pending_def using I ph wait_block(2) by (auto simp add: wait_block(5) destructor_def)
      then show ?thesis using I(1) by (simp add: wait_block(5))
    next
      case (wait_pass rest)
      then have "task_queue s = [root]" using ph by (auto simp add: destructor_def)
      then show ?thesis using wait_pass(3) by (simp add: wait_blocks_def)
    next
      case (set_flag rest)
      then have p: "rest = [NotifyAll, DestroyMembers, Join]" "task_queue s = [root]"
        "\<not> destroyed s"
        using ph by (auto simp add: destructor_def)
      have "root_pending root s'"
        unfolding root_pending_def using I p set_flag(1) by (simp add: set_flag(3))
      then show ?thesis using I(1) by (simp add: set_flag(3))
    next
      case (wake_all rest)
      then have p: "rest = [DestroyMembers, Join]" "task_queue s = [root]" "\<not> destroyed s"
        using ph by (auto simp add: destructor_def)
      have "\<forall>x \<in> set (notify_all (threads s)). ?ok x"
        using I(4) by (rule allowed_notify_all) simp
      moreover have "notify_all (threads s) \<noteq> []"
        using I(3) by (simp add: notify_all_def)
      ultimately have "root_pending root s'"
        unfolding root_pending_def using I p wake_all(1) by (simp add: wake_all(3))
      then show ?thesis using I(1) by (simp add: wake_all(3))
    next
      case (destroy rest)
      then have p: "rest = [Join]" using ph by (auto simp add: destructor_def)
      have "root_pending root s'"
        unfolding root_pending_def using I p destroy(1) by (simp add: destroy(3))
      then show ?thesis using I(1) by (simp add: destroy(3))
    next
      case (join rest)
      obtain x where x: "x \<in> set (threads s)" using I(3) by (cases "threads s") auto
      then have "x = WExited \<or> x = WCrashed" using join(3) by (simp add: list_all_iff)
      then show ?thesis using I(4) x by auto
    next
      case misuse
      then show ?thesis using nf by simp
    qed
  next
    case (Spurious_worker w)
    have "\<forall>x \<in> set ((threads s)[w := WWoken]). ?ok x"
      using I(4) by (rule allowed_update) simp
    then have "root_pending root s'"
      unfolding root_pending_def using I ph by (simp add: Spurious_worker(4))
    then show ?thesis using I(1) by (simp add: Spurious_worker(4))
  next
    case Spurious_owner
    then obtain rest where "program s = Wait # rest" using I(5) by auto
    then have "root_pending root s'"
      unfolding root_pending_def using I ph by (auto simp add: Spurious_owner(3) destructor_def)
    then show ?thesis using I(1) by (simp add: Spurious_owner(3))
  qed
qed

lemma root_pending_sort_step:
  assumes st: "sort_step exec ev (s, a) = Some (Inr (s', a'))"
    and inv: "root_pending root s"
    and ex: "\<And>x. exec (bound_range root) x = Inl e"
  shows "root_pending root s'"
  using st
proof (cases rule: sort_step_Inr)
  case plain
  have "(started s' = [] \<and> root_pending root s') \<or>
         (started s' = [root] \<and> (\<exists>w c. ev = Worker w c))"
    using plain(1,2) inv by (rule root_pending_step)
  moreover have "started s = []" using inv by (simp add: root_pending_def)
  ultimately show ?thesis using plain(4) by (auto simp add: body_entered_def)
next
  case (body s1 w f pushed)
  have "(started s1 = [] \<and> root_pending root s1) \<or>
         (started s1 = [root] \<and> (\<exists>w c. ev = Worker w c))"
    using body(1,2) inv by (rule root_pending_step)
  moreover have "started s = []" using inv by (simp add: root_pending_def)
  ultimately have "f = root" using body(3)
    by (auto simp add: body_entered_def split: event.splits if_splits)
  then show ?thesis using body(4) ex by simp
qed

lemma root_pending_sort_run:
  assumes "sort_run exec evs (s, a) = Some (Inr (s', a'))"
    and "root_pending root s"
    and ex: "\<And>x. exec (bound_range root) x = Inl e"
  shows "root_pending root s'"
  using assms(1,2)
proof (induction evs arbitrary: s a)
  case Nil
  then show ?case by simp
next
  case (Cons ev evs)
  then obtain s1 a1 where s1: "sort_step exec ev (s, a) = Some (Inr (s1, a1))"
    "sort_run exec evs (s1, a1) = Some (Inr (s', a'))"
    by (auto split: option.splits sum.splits)
  have "root_pending root s1" using s1(1) Cons.prems(2) ex by (rule root_pending_sort_step)
  then show ?case using Cons.IH [OF s1(2)] by simp
qed

lemma dangling_exec:
  assumes "quick_sort_static st = Some c" "c \<noteq> calls st" "1 < snd tk - fst tk"
  shows "sort_exec part srt st a cmp t tk x = Inl DanglingReference"
  using assms by (simp add: sort_exec_def invoke_quick_sort_def)

lemma bound_bind [simp]: "bound_range (bind_quick_sort tk) = tk"
  by (cases tk) (simp add: bound_range_def bind_quick_sort_def)

lemma root_pending_initial:
  assumes "0 < n"
  shows "root_pending root (thread_pool n [Push root])"
proof -
  have "replicate n WStart \<noteq> []" using assms by simp
  moreover have "\<forall>x \<in> set (replicate n WStart). x = WStart \<or> x = WBlocking \<or> x = WWaiting \<or> x = WWoken"
    by simp
  ultimately show ?thesis
    unfolding root_pending_def thread_pool_def by simp
qed

lemma later_call_dangles:
  assumes st: "quick_sort_static st = Some c" "c \<noteq> calls st"
    and len: "2 \<le> length a"
    and run: "mt_sort part srt st a cmp t res"
  shows "\<exists>e. res = Inl e"
  using run
proof (cases rule: mt_sort.cases)
  case sort_div0
  then show ?thesis by simp
next
  case (sort_fault evs f)
  then show ?thesis by simp
next
  case (sort_returns evs s a')
  let ?exec = "sort_exec part srt st a cmp t"
  let ?root = "bind_quick_sort (0, length a)"
  have "1 < snd (0 :: nat, length a) - fst (0 :: nat, length a)" using len by simp
  then have "?exec (0, length a) x = Inl DanglingReference" for x
    using st by (intro dangling_exec)
  then have ex: "\<And>x. ?exec (bound_range ?root) x = Inl DanglingReference" by simp
  have "t \<noteq> 0" using sort_returns(2) by auto
  then have "0 < unat t" by (simp add: unat_gt_0)
  then have init: "root_pending ?root (thread_pool (unat t) [Push ?root])"
    by (rule root_pending_initial)
  have r: "sort_run ?exec evs (thread_pool (unat t) [Push ?root], a) = Some (Inr (s, a'))"
    using sort_returns(3) by (simp add: sort_pool_def)
  have "root_pending ?root s"
    using r init ex by (rule root_pending_sort_run)
  then have "program s \<noteq> []" unfolding root_pending_def destructor_def by auto
  then show ?thesis using sort_returns(4) by simp
qed

lemma mt_sort_returnsI:
  assumes "threads_amount * 8 \<noteq> 0"
    and "sort_run (sort_exec part srt st a cmp threads_amount) evs (sort_pool threads_amount a)
       = Some (Inr (s, a'))"
    and "program s = []" and "r = sort_return st (Inr a')"
  shows "mt_sort part srt st a cmp threads_amount r"
  using mt_sort.sort_returns [OF assms(1,2,3)] assms(4) by simp

text \<open>
  C9: \<^emph>\<open>applying sort a second time to the sorted result leaves it unchanged; a second
  call on the same element type behaves correctly.\<close>  The first call on \<open>[2, 1]\<close> returns
  \<open>[1, 2]\<close> and leaves the static closure bound to its own locals; the second call, on
  \<open>[1, 2]\<close>, runs that closure, whose first read of \<open>chunk_size\<close> goes through a
  reference to a local of the call that has returned.  The tests call \<open>mt::sort\<close>
  repeatedly on one iterator type and assert the result.
\<close>

theorem sort_second_call_dangles:
  "mt_sort stable_partition insertion_sort initial_prog [2, 1 :: nat] (<) 1
     (Inr (\<lparr>quick_sort_static = Some 0, calls = 1\<rparr>, [1, 2])) \<and>
   mt_sort stable_partition insertion_sort \<lparr>quick_sort_static = Some 0, calls = 1\<rparr>
     [1, 2 :: nat] (<) 1 (Inl DanglingReference) \<and>
   \<not> mt_sort stable_partition insertion_sort \<lparr>quick_sort_static = Some 0, calls = 1\<rparr>
     [1, 2 :: nat] (<) 1 (Inr (\<lparr>quick_sort_static = Some 0, calls = 2\<rparr>, [1, 2]))"
proof -
  have a: "mt_sort stable_partition insertion_sort initial_prog [2, 1 :: nat] (<) 1
     (Inr (\<lparr>quick_sort_static = Some 0, calls = 1\<rparr>, [1, 2]))"
  proof (rule mt_sort_returnsI)
    show "(1 :: size_t) * 8 \<noteq> 0" by simp
    show "sort_run (sort_exec stable_partition insertion_sort initial_prog [2, 1 :: nat] (<) 1)
        [Owner 0, Worker 0 0, Worker 0 0, Worker 0 0, Worker 0 0, Worker 0 0, Worker 0 0,
         Worker 0 0, Owner 0, Owner 0, Owner 0, Worker 0 0, Owner 0, Owner 0]
        (sort_pool 1 [2, 1]) =
      Some (Inr (\<lparr>task_queue = [], active = 0, shutdown_request = True,
           threads = [WExited], client = CReady, program = [],
           destroyed = True, failure = None,
           submitted = [Task 0 [0, 2] [] False, Task 0 [0, 0] [] False, Task 0 [1, 2] [] False],
           started = [Task 0 [0, 2] [] False, Task 0 [0, 0] [] False, Task 0 [1, 2] [] False],
           finished = [Task 0 [0, 2] [] False, Task 0 [0, 0] [] False, Task 0 [1, 2] [] False],
           discarded = []\<rparr>, [1, 2]))"
      by code_simp
  qed (simp_all add: sort_return_def initial_prog_def)
  have b: "mt_sort stable_partition insertion_sort \<lparr>quick_sort_static = Some 0, calls = 1\<rparr>
     [1, 2 :: nat] (<) 1 (Inl DanglingReference)"
  proof (rule mt_sort.sort_fault)
    show "(1 :: size_t) * 8 \<noteq> 0" by simp
    show "sort_run (sort_exec stable_partition insertion_sort
          \<lparr>quick_sort_static = Some 0, calls = 1\<rparr> [1, 2 :: nat] (<) 1)
        [Owner 0, Worker 0 0] (sort_pool 1 [1, 2]) = Some (Inl DanglingReference)"
      by code_simp
  qed
  have c: "\<not> mt_sort stable_partition insertion_sort \<lparr>quick_sort_static = Some 0, calls = 1\<rparr>
     [1, 2 :: nat] (<) 1 (Inr (\<lparr>quick_sort_static = Some 0, calls = 2\<rparr>, [1, 2]))"
  proof
    assume "mt_sort stable_partition insertion_sort \<lparr>quick_sort_static = Some 0, calls = 1\<rparr>
     [1, 2 :: nat] (<) 1 (Inr (\<lparr>quick_sort_static = Some 0, calls = 2\<rparr>, [1, 2]))"
    then have "\<exists>e. (Inr (\<lparr>quick_sort_static = Some 0, calls = 2\<rparr>, [1, 2 :: nat])
        :: fault + prog \<times> nat list) = Inl e"
      by (intro later_call_dangles [where c = 0]) simp_all
    then show False by simp
  qed
  show ?thesis using a b c by blast
qed

lemma join_blocked_step:
  assumes st: "step ev s = Some s'" and nf: "failure s' = None" and inv: "join_blocked s"
  shows "join_blocked s' \<and> started s' = started s"
proof -
  let ?ok = "\<lambda>x. x = WExited \<or> x = WCrashed \<or> x = WWaiting \<or> x = WWoken"
  have I: "destroyed s" "program s = [Join]" "client s = CReady" "failure s = None"
    "\<forall>x \<in> set (threads s). ?ok x" "\<exists>x \<in> set (threads s). x = WWaiting \<or> x = WWoken"
    using inv unfolding join_blocked_def by blast+
  from st show ?thesis
  proof (cases rule: step_cases)
    case (Worker w c)
    from Worker(2) show ?thesis
    proof (cases rule: worker_cases)
      case (crash M f)
      have "threads s ! w \<in> set (threads s)" using crash(5) by simp
      then show ?thesis using I(5) crash(6) by auto
    next
      case misuse
      then show ?thesis using nf by simp
    qed (use I(1) in simp_all)
  next
    case (Owner c)
    from Owner(2) show ?thesis
    proof (cases rule: owner_cases)
      case (join rest)
      obtain x where x: "x \<in> set (threads s)" "x = WWaiting \<or> x = WWoken" using I(6) by blast
      then have "x = WExited \<or> x = WCrashed" using join(3) by (simp add: list_all_iff)
      then show ?thesis using x(2) by auto
    next
      case misuse
      then show ?thesis using nf by simp
    qed (use I(2,3) in simp_all)
  next
    case (Spurious_worker w)
    have "\<forall>x \<in> set ((threads s)[w := WWoken]). ?ok x"
      using I(5) by (rule allowed_update) simp
    moreover have "WWoken \<in> set ((threads s)[w := WWoken])"
      using Spurious_worker(2) by (rule set_update_memI)
    ultimately show ?thesis
      unfolding join_blocked_def using I by (auto simp add: Spurious_worker(4))
  next
    case Spurious_owner
    then show ?thesis using I(3) by simp
  qed
qed

lemma join_blocked_forever:
  assumes "sort_run exec evs (s, a) = Some (Inr (s', a'))" "join_blocked s"
  shows "join_blocked s'"
  using assms
proof (induction evs arbitrary: s a)
  case Nil
  then show ?case by simp
next
  case (Cons ev evs)
  then obtain s1 a1 where s1: "sort_step exec ev (s, a) = Some (Inr (s1, a1))"
    "sort_run exec evs (s1, a1) = Some (Inr (s', a'))"
    by (auto split: option.splits sum.splits)
  from s1(1) have "join_blocked s1"
  proof (cases rule: sort_step_Inr)
    case plain
    then show ?thesis using join_blocked_step [OF plain(1,2) Cons.prems(2)] by simp
  next
    case (body s2 w f pushed)
    have "started s2 = started s" using join_blocked_step [OF body(1,2) Cons.prems(2)] by simp
    then show ?thesis using body(3)
      by (simp add: body_entered_def split: event.splits)
  qed
  then show ?case using Cons.IH [OF s1(2)] by simp
qed

text \<open>
  C1: \<^emph>\<open>for every sequence, every strict weak order and every thread count \<open>\<ge> 1\<close>,
  sort terminates with the range holding a sorted permutation.\<close>  The call returns
  through the destructor of the pool, which stores \<open>shutdown_request\<close> and calls
  \<open>notify_all\<close> without holding \<open>queue_mutex\<close>, while a worker holds the mutex from its
  test of the flag to its call of \<open>queue_cv.wait\<close>.  First call on \<open>[2, 1]\<close> with two
  threads and no wake-up without notification: worker 0 runs the three tasks and goes to
  sleep; the destructor's \<open>wait()\<close> finds the pool quiescent and returns; worker 1, which
  starts only now, finds the queue empty and reads the flag as false; the owner stores
  the flag and notifies, which wakes worker 0 only; worker 1 calls \<open>queue_cv.wait\<close>;
  worker 0 leaves; the members are destroyed.  The range is sorted, but the call does
  not return: the destructor of the future of worker 1 blocks, no step of the owner or
  of a worker is enabled, and no continuation of this run reaches the end of the
  destructor (the one event left is a wake-up of worker 1 without notification, after
  which it locks a destroyed mutex).
\<close>

theorem sort_call_never_returns:
  "(2 :: size_t) * 8 \<noteq> 0 \<and>
   sort_run (sort_exec stable_partition insertion_sort initial_prog [2, 1 :: nat] (<) 2)
     [Owner 0, Worker 0 0, Worker 0 0, Worker 0 0, Worker 0 0, Worker 0 0, Worker 0 0,
      Worker 0 0, Owner 0, Worker 1 0, Owner 0, Owner 0, Worker 1 0, Worker 0 0, Owner 0]
     (sort_pool 2 [2, 1]) =
   Some (Inr (\<lparr>task_queue = [], active = 0, shutdown_request = True,
           threads = [WExited, WWaiting], client = CReady, program = [Join],
           destroyed = True, failure = None,
           submitted = [Task 0 [0, 2] [] False, Task 0 [0, 0] [] False, Task 0 [1, 2] [] False],
           started = [Task 0 [0, 2] [] False, Task 0 [0, 0] [] False, Task 0 [1, 2] [] False],
           finished = [Task 0 [0, 2] [] False, Task 0 [0, 0] [] False, Task 0 [1, 2] [] False],
           discarded = []\<rparr>, [1, 2])) \<and>
   (\<forall>w c. step (Worker w c)
      \<lparr>task_queue = [], active = 0, shutdown_request = True,
           threads = [WExited, WWaiting], client = CReady, program = [Join],
           destroyed = True, failure = None,
           submitted = [Task 0 [0, 2] [] False, Task 0 [0, 0] [] False, Task 0 [1, 2] [] False],
           started = [Task 0 [0, 2] [] False, Task 0 [0, 0] [] False, Task 0 [1, 2] [] False],
           finished = [Task 0 [0, 2] [] False, Task 0 [0, 0] [] False, Task 0 [1, 2] [] False],
           discarded = []\<rparr> = None) \<and>
   (\<forall>c. step (Owner c)
      \<lparr>task_queue = [], active = 0, shutdown_request = True,
           threads = [WExited, WWaiting], client = CReady, program = [Join],
           destroyed = True, failure = None,
           submitted = [Task 0 [0, 2] [] False, Task 0 [0, 0] [] False, Task 0 [1, 2] [] False],
           started = [Task 0 [0, 2] [] False, Task 0 [0, 0] [] False, Task 0 [1, 2] [] False],
           finished = [Task 0 [0, 2] [] False, Task 0 [0, 0] [] False, Task 0 [1, 2] [] False],
           discarded = []\<rparr> = None) \<and>
   \<not> (\<exists>evs s a'.
        sort_run (sort_exec stable_partition insertion_sort initial_prog [2, 1 :: nat] (<) 2) evs
          (\<lparr>task_queue = [], active = 0, shutdown_request = True,
            threads = [WExited, WWaiting], client = CReady, program = [Join],
            destroyed = True, failure = None,
            submitted = [Task 0 [0, 2] [] False, Task 0 [0, 0] [] False, Task 0 [1, 2] [] False],
            started = [Task 0 [0, 2] [] False, Task 0 [0, 0] [] False, Task 0 [1, 2] [] False],
            finished = [Task 0 [0, 2] [] False, Task 0 [0, 0] [] False, Task 0 [1, 2] [] False],
            discarded = []\<rparr>, [1, 2]) = Some (Inr (s, a')) \<and>
        program s = [])"
proof -
  let ?exec = "sort_exec stable_partition insertion_sort initial_prog [2, 1 :: nat] (<) 2"
  let ?S = "\<lparr>task_queue = [], active = 0, shutdown_request = True,
           threads = [WExited, WWaiting], client = CReady, program = [Join],
           destroyed = True, failure = None,
           submitted = [Task 0 [0, 2] [] False, Task 0 [0, 0] [] False, Task 0 [1, 2] [] False],
           started = [Task 0 [0, 2] [] False, Task 0 [0, 0] [] False, Task 0 [1, 2] [] False],
           finished = [Task 0 [0, 2] [] False, Task 0 [0, 0] [] False, Task 0 [1, 2] [] False],
           discarded = []\<rparr>"
  have a: "(2 :: size_t) * 8 \<noteq> 0" by simp
  have b: "sort_run ?exec
     [Owner 0, Worker 0 0, Worker 0 0, Worker 0 0, Worker 0 0, Worker 0 0, Worker 0 0,
      Worker 0 0, Owner 0, Worker 1 0, Owner 0, Owner 0, Worker 1 0, Worker 0 0, Owner 0]
     (sort_pool 2 [2, 1]) = Some (Inr (?S, [1, 2]))"
    by code_simp
  have jb: "join_blocked ?S" by (simp add: join_blocked_def)
  have c: "\<not> (\<exists>evs s a'. sort_run ?exec evs (?S, [1, 2]) = Some (Inr (s, a')) \<and> program s = [])"
  proof
    assume "\<exists>evs s a'. sort_run ?exec evs (?S, [1, 2]) = Some (Inr (s, a')) \<and> program s = []"
    then obtain evs s a' where r: "sort_run ?exec evs (?S, [1, 2]) = Some (Inr (s, a'))"
      and p: "program s = []" by blast
    have "join_blocked s" using r jb by (rule join_blocked_forever)
    then show False using p by (simp add: join_blocked_def)
  qed
  have d: "step (Worker w c) ?S = None" for w c
  proof -
    consider "w = 0" | "w = 1" | "2 \<le> w" by arith
    then show ?thesis by cases (simp_all add: step_def worker_def)
  qed
  have e: "step (Owner c) ?S = None" for c
    by (simp add: step_def owner_def)
  show ?thesis using a b c d e by blast
qed

text \<open>
  With one thread the same call can lose its root task: the destructor's \<open>wait()\<close>
  returns on a wake-up without notification (C3), the members are destroyed with the
  root task still in the queue, and the worker, which has yet to start, then locks a
  destroyed mutex.  The range is as it was.
\<close>

lemma sort_root_discarded:
  "sort_run (sort_exec stable_partition insertion_sort initial_prog [2, 1 :: nat] (<) 1)
     [Owner 0, Owner 0, Spurious_owner, Owner 0, Owner 0, Owner 0, Owner 0]
     (sort_pool 1 [2, 1]) =
   Some (Inr (\<lparr>task_queue = [], active = 0, shutdown_request = True,
           threads = [WStart], client = CReady, program = [Join],
           destroyed = True, failure = None,
           submitted = [Task 0 [0, 2] [] False], started = [], finished = [],
           discarded = [Task 0 [0, 2] [] False]\<rparr>, [2, 1])) \<and>
   sort_run (sort_exec stable_partition insertion_sort initial_prog [2, 1 :: nat] (<) 1)
     [Owner 0, Owner 0, Spurious_owner, Owner 0, Owner 0, Owner 0, Owner 0, Worker 0 0]
     (sort_pool 1 [2, 1]) = Some (Inl UseAfterDestruction)"
  by code_simp

text \<open>
  A thread count whose eightfold is zero in \<open>size_t\<close>, such as \<open>2^61\<close>, makes the first
  statement of \<open>mt::sort\<close> divide by zero.
\<close>

lemma sort_thread_count_overflow:
  "mt_sort stable_partition insertion_sort initial_prog [2, 1 :: nat] (<) (2 ^ 61)
     (Inl DivisionByZero) \<and>
   \<not> mt_sort stable_partition insertion_sort initial_prog [2, 1 :: nat] (<) (2 ^ 61)
     (Inr (\<lparr>quick_sort_static = Some 0, calls = 1\<rparr>, [1, 2]))"
proof -
  have z: "(2 ^ 61 :: size_t) * 8 = 0" by simp
  have "mt_sort stable_partition insertion_sort initial_prog [2, 1 :: nat] (<) (2 ^ 61)
     (Inl DivisionByZero)" using z by (rule mt_sort.sort_div0)
  moreover have "\<not> mt_sort stable_partition insertion_sort initial_prog [2, 1 :: nat] (<) (2 ^ 61)
     (Inr (\<lparr>quick_sort_static = Some 0, calls = 1\<rparr>, [1, 2]))"
  proof
    assume "mt_sort stable_partition insertion_sort initial_prog [2, 1 :: nat] (<) (2 ^ 61)
     (Inr (\<lparr>quick_sort_static = Some 0, calls = 1\<rparr>, [1, 2]))"
    then show False using z by (cases rule: mt_sort.cases) simp_all
  qed
  ultimately show ?thesis by blast
qed

section \<open>Thread counts that are not valid\<close>

lemma unique_loop_length: "length (fst (unique_loop a r f l)) = length a"
proof (induction a r f l rule: unique_loop.induct)
  case (1 a result first lst)
  show ?case
    using 1 by (subst unique_loop.simps) (simp del: unique_loop.simps)
qed

lemma std_unique_length: "length (fst (std_unique a f l)) = length a"
  by (simp add: std_unique_def unique_loop_length)

lemma launch_grows:
  "length (fst (launch ps t js (a, ths))) = length a \<and>
   (\<exists>more. snd (launch ps t js (a, ths)) = ths @ more)"
proof (induction js arbitrary: a ths)
  case Nil
  then show ?case by simp
next
  case (Cons j js)
  obtain a' r where u: "std_unique a (chunk_begin ps j) (chunk_end (length a) ps t j) = (a', r)"
    by (cases "std_unique a (chunk_begin ps j) (chunk_end (length a) ps t j)")
  have "length a' = length a" using std_unique_length [of a "chunk_begin ps j" "chunk_end (length a) ps t j"] u by simp
  then show ?case using Cons.IH [of a' "ths @ [r]"] u by auto
qed

lemma unique_too_many_threads:
  assumes ne: "a \<noteq> []" and big: "length a < unat t"
  shows "unique a p t = Inl OutOfRange"
proof -
  have t0: "t \<noteq> 0" using big by auto
  have t2: "2 \<le> unat t" using ne big by (cases a) auto
  have ps: "length a div unat t = 0" using big by simp
  obtain rest where up: "[0..<unat t] = 0 # Suc 0 # rest"
    using t2 by (metis One_nat_def Suc_1 Suc_le_lessD le_eq_less_or_eq less_imp_le_nat not_less_eq_eq upt_conv_Cons zero_less_Suc)
  have up1: "[Suc 0..<unat t] = Suc 0 # rest"
    using up by (metis list.inject upt_conv_Cons zero_less_Suc t2 Suc_le_lessD numeral_2_eq_2 less_imp_le_nat not_less_eq_eq le_eq_less_or_eq)
  have first: "std_unique a (chunk_begin 0 0) (chunk_end (length a) 0 (unat t) 0) = (a, 0)"
    using t2 by (simp add: std_unique_def chunk_begin_def chunk_end_def)
  obtain a1 ths where l: "launch 0 (unat t) (Suc 0 # rest) (a, [0]) = (a1, ths)"
    by (cases "launch 0 (unat t) (Suc 0 # rest) (a, [0])")
  have g: "length a1 = length a" "\<exists>more. ths = [0] @ more"
    using launch_grows [of 0 "unat t" "Suc 0 # rest" a "[0]"] l by simp_all
  then have h: "ths ! 0 = 0" by auto
  have la: "launch 0 (unat t) [0..<unat t] (a, []) = (a1, ths)"
    unfolding up using first l by simp
  have "merge_chunks p 0 ths (Suc 0 # rest) (a1, 0) = Inl OutOfRange"
    by simp
  then show ?thesis
    using t0 ps la h up1 by (simp add: unique_def Let_def)
qed

lemma sort_zero_threads:
  "mt_sort part srt st a cmp 0 res \<longleftrightarrow> res = Inl DivisionByZero"
proof
  assume "mt_sort part srt st a cmp 0 res"
  then show "res = Inl DivisionByZero" by (cases rule: mt_sort.cases) simp_all
next
  assume "res = Inl DivisionByZero"
  then show "mt_sort part srt st a cmp 0 res" using mt_sort.sort_div0 [of 0] by simp
qed

text \<open>
  C6 as stated (\<^emph>\<open>a call with an invalid thread count is validated and rejected rather
  than dividing by zero or computing out of range\<close>) fails: the constructor given zero
  builds a pool with no worker, \<open>sort\<close> and \<open>unique\<close> given zero divide by zero, and
  \<open>unique\<close> given three threads for two elements reads before the range.
\<close>

theorem thread_count_not_validated_counterexample:
  "threads (thread_pool 0 [Push (Task 7 [123, 456] [] False)]) = [] \<and>
   mt_sort stable_partition insertion_sort initial_prog [2, 1 :: nat] (<) 0 (Inl DivisionByZero) \<and>
   unique [1, 2 :: nat] (=) 0 = Inl DivisionByZero \<and>
   unique [1, 2 :: nat] (=) 3 = Inl OutOfRange"
proof -
  have "mt_sort stable_partition insertion_sort initial_prog [2, 1 :: nat] (<) 0 (Inl DivisionByZero)"
    by (rule mt_sort.sort_div0) simp
  moreover have "unique [1, 2 :: nat] (=) 0 = Inl DivisionByZero" by (simp add: unique_def)
  moreover have "unique [1, 2 :: nat] (=) 3 = Inl OutOfRange" by code_simp
  ultimately show ?thesis by (simp add: thread_pool_def)
qed

text \<open>
  C6, amended: no call validates its thread count.  The constructor given zero builds a
  pool without workers, in which no task is ever started; \<open>sort\<close> and \<open>unique\<close> given zero
  perform the division by zero; \<open>unique\<close> given more threads than a non-empty range has
  elements computes a part size of zero and reads the element before the range's begin.
\<close>

theorem invalid_thread_count_runs_into_fault:
  "threads (thread_pool 0 made) = [] \<and>
   (reachable 0 made s \<longrightarrow> started s = []) \<and>
   (mt_sort part srt st a cmp 0 res \<longleftrightarrow> res = Inl DivisionByZero) \<and>
   unique b p 0 = Inl DivisionByZero \<and>
   (b \<noteq> [] \<and> length b < unat t \<longrightarrow> unique b p t = Inl OutOfRange)"
  using no_workers_never_start [of made s] sort_zero_threads [of part srt st a cmp res]
    unique_too_many_threads [of b t p]
  by (simp add: thread_pool_def unique_def)

text \<open>A pool of zero workers with one task pushed; two elements and three threads.\<close>

theorem invalid_thread_count_runs_into_fault_witness:
  "reachable 0 [Push (Task 7 [123, 456] [] False)]
     \<lparr>task_queue = [Task 7 [123, 456] [] False], active = 0, shutdown_request = False,
      threads = [], client = CWaiting,
      program = [Wait, SetShutdown, NotifyAll, DestroyMembers, Join],
      destroyed = False, failure = None,
      submitted = [Task 7 [123, 456] [] False], started = [], finished = [],
      discarded = []\<rparr> \<and>
   [1, 2 :: nat] \<noteq> [] \<and> length [1, 2 :: nat] < unat (3 :: size_t) \<and>
   unique [1, 2 :: nat] (=) 3 = Inl OutOfRange"
proof -
  let ?s = "\<lparr>task_queue = [Task 7 [123, 456] [] False], active = 0, shutdown_request = False,
      threads = [], client = CWaiting,
      program = [Wait, SetShutdown, NotifyAll, DestroyMembers, Join],
      destroyed = False, failure = None,
      submitted = [Task 7 [123, 456] [] False], started = [], finished = [],
      discarded = []\<rparr>"
  have "run [Owner 0, Owner 0] (thread_pool 0 [Push (Task 7 [123, 456] [] False)]) = Some ?s"
    by code_simp
  then have h1: "reachable 0 [Push (Task 7 [123, 456] [] False)] ?s"
    unfolding reachable_def by blast
  have h2: "[1, 2 :: nat] \<noteq> [] \<and> length [1, 2 :: nat] < unat (3 :: size_t)" by simp
  show ?thesis
    using invalid_thread_count_runs_into_fault
      [of "[Push (Task 7 [123, 456] [] False)]" ?s _ _ _ _ _ _ "[1, 2]" "(=)" 3] h1 h2
    by blast
qed

section \<open>Parallel unique with the default predicate\<close>

text \<open>
  With \<open>operator==\<close> as the predicate the chunk executions and the merge loop compare in
  the same way.  Then, for a non-empty range and a thread count between 1 and its
  length, \<open>mt::unique\<close> returns without fault, and the prefix up to the returned end is
  the range with every run of equal elements reduced to one element
  (\<open>unique_default_predicate\<close>); for a sorted range this prefix is sorted, has no
  repetition and as many elements as the range has distinct values
  (\<open>unique_default_sorted\<close>).
\<close>

lemma subrange_Cons:
  assumes "i < l" "l \<le> length a"
  shows "subrange a i l = a ! i # subrange a (Suc i) l"
proof -
  have "i < length a" using assms by simp
  then have "drop i a = a ! i # drop (Suc i) a" by (simp add: Cons_nth_drop_Suc)
  moreover have "l - i = Suc (l - Suc i)" using assms by simp
  ultimately show ?thesis by (simp add: subrange_def)
qed

lemma subrange_empty [simp]: "subrange a l l = []"
  by (simp add: subrange_def)

lemma subrange_update_before:
  assumes "k < i"
  shows "subrange (a[k := v]) i l = subrange a i l"
  using assms by (simp add: subrange_def)

lemma unique_loop_spec:
  assumes "r < i" "i \<le> l" "l \<le> length a"
  shows "length (fst (unique_loop a r i l)) = length a \<and>
         take (Suc r) (fst (unique_loop a r i l)) = take (Suc r) a \<and>
         drop l (fst (unique_loop a r i l)) = drop l a \<and>
         r < snd (unique_loop a r i l) \<and> snd (unique_loop a r i l) \<le> l \<and>
         subrange (fst (unique_loop a r i l)) r (snd (unique_loop a r i l)) =
           remdups_adj (a ! r # subrange a i l)"
  using assms
proof (induction a r i l rule: unique_loop.induct)
  case (1 a r i l)
  show ?case
  proof (cases "l \<le> i")
    case True
    then have il: "i = l" using "1.prems" by simp
    have u: "unique_loop a r i l = (a, Suc r)"
      using True by (subst unique_loop.simps) simp
    have "subrange a r (Suc r) = [a ! r]"
      using "1.prems" il subrange_Cons [of r "Suc r" a] by simp
    then show ?thesis using "1.prems" il u by simp
  next
    case False
    then have lt: "i < l" by simp
    have sub: "subrange a i l = a ! i # subrange a (Suc i) l"
      using lt "1.prems"(3) by (rule subrange_Cons)
    show ?thesis
    proof (cases "a ! r = a ! i")
      case True
      have u: "unique_loop a r i l = unique_loop a r (Suc i) l"
        using False True by (subst unique_loop.simps) simp
      have IH: "length (fst (unique_loop a r (Suc i) l)) = length a \<and>
         take (Suc r) (fst (unique_loop a r (Suc i) l)) = take (Suc r) a \<and>
         drop l (fst (unique_loop a r (Suc i) l)) = drop l a \<and>
         r < snd (unique_loop a r (Suc i) l) \<and> snd (unique_loop a r (Suc i) l) \<le> l \<and>
         subrange (fst (unique_loop a r (Suc i) l)) r (snd (unique_loop a r (Suc i) l)) =
           remdups_adj (a ! r # subrange a (Suc i) l)"
        using "1.IH"(3) [OF False] True "1.prems" lt by simp
      show ?thesis unfolding u using IH sub True by simp
    next
      case ne: False
      define a2 where "a2 = (if Suc r \<noteq> i then a[Suc r := a ! i] else a)"
      have a2: "a2 = a[Suc r := a ! i]"
        unfolding a2_def by (cases "Suc r = i") simp_all
      have u: "unique_loop a r i l = unique_loop a2 (Suc r) (Suc i) l"
        using False ne unfolding a2_def by (subst unique_loop.simps) simp
      have IH: "length (fst (unique_loop a2 (Suc r) (Suc i) l)) = length a2 \<and>
         take (Suc (Suc r)) (fst (unique_loop a2 (Suc r) (Suc i) l)) = take (Suc (Suc r)) a2 \<and>
         drop l (fst (unique_loop a2 (Suc r) (Suc i) l)) = drop l a2 \<and>
         Suc r < snd (unique_loop a2 (Suc r) (Suc i) l) \<and>
         snd (unique_loop a2 (Suc r) (Suc i) l) \<le> l \<and>
         subrange (fst (unique_loop a2 (Suc r) (Suc i) l)) (Suc r)
             (snd (unique_loop a2 (Suc r) (Suc i) l)) =
           remdups_adj (a2 ! Suc r # subrange a2 (Suc i) l)"
      proof (cases "Suc r = i")
        case True
        then show ?thesis
          using "1.IH"(2) [OF False ne] "1.prems" lt a2_def by simp
      next
        case False2: False
        then show ?thesis
          using "1.IH"(1) [OF False ne False2] "1.prems" lt a2_def by simp
      qed
      let ?a' = "fst (unique_loop a2 (Suc r) (Suc i) l)"
      let ?e = "snd (unique_loop a2 (Suc r) (Suc i) l)"
      have len2: "length a2 = length a" by (simp add: a2)
      have ri: "Suc r < length a" using "1.prems" lt by simp
      have a2r: "a2 ! Suc r = a ! i" using ri by (simp add: a2)
      have t2: "take (Suc r) a2 = take (Suc r) a" by (simp add: a2)
      have s2: "subrange a2 (Suc i) l = subrange a (Suc i) l"
        unfolding a2 using "1.prems"(1) by (intro subrange_update_before) simp
      have d2: "drop l a2 = drop l a" using "1.prems" lt by (simp add: a2)
      have tk: "take (Suc r) ?a' = take (Suc r) a"
      proof -
        have "take (Suc r) ?a' = take (Suc r) (take (Suc (Suc r)) ?a')" by simp
        also have "\<dots> = take (Suc r) (take (Suc (Suc r)) a2)" using IH by simp
        also have "\<dots> = take (Suc r) a" using t2 by simp
        finally show ?thesis .
      qed
      have "?a' ! r = a ! r"
      proof -
        have "?a' ! r = take (Suc r) ?a' ! r" by simp
        also have "\<dots> = take (Suc r) a ! r" using tk by simp
        finally show ?thesis by simp
      qed
      moreover have "subrange ?a' r ?e = ?a' ! r # subrange ?a' (Suc r) ?e"
        using IH len2 "1.prems" by (intro subrange_Cons) simp_all
      ultimately have "subrange ?a' r ?e = a ! r # remdups_adj (a ! i # subrange a (Suc i) l)"
        using IH a2r s2 by simp
      then have "subrange ?a' r ?e = remdups_adj (a ! r # subrange a i l)"
        using sub ne by simp
      then show ?thesis unfolding u using IH len2 tk d2 by simp
    qed
  qed
qed

lemma subrange_alt: "subrange a s e = drop s (take e a)"
  by (simp add: subrange_def drop_take)

lemma subrange_take_eq:
  assumes "take m a = take m b" "e \<le> m"
  shows "subrange a s e = subrange b s e"
proof -
  have "take e a = take e (take m a)" "take e b = take e (take m b)"
    using assms(2) by (simp_all add: min_def)
  then show ?thesis using assms(1) by (simp add: subrange_alt)
qed

lemma subrange_drop_eq:
  assumes "drop m a = drop m b" "m \<le> s"
  shows "subrange a s e = subrange b s e"
proof -
  have "drop s a = drop (s - m) (drop m a)" "drop s b = drop (s - m) (drop m b)"
    using assms(2) by simp_all
  then show ?thesis using assms(1) by (simp add: subrange_def)
qed

lemma std_unique_spec:
  assumes "f \<le> l" "l \<le> length a"
  shows "length (fst (std_unique a f l)) = length a \<and>
         take f (fst (std_unique a f l)) = take f a \<and>
         drop l (fst (std_unique a f l)) = drop l a \<and>
         f \<le> snd (std_unique a f l) \<and> snd (std_unique a f l) \<le> l \<and>
         (f < l \<longrightarrow> f < snd (std_unique a f l)) \<and>
         subrange (fst (std_unique a f l)) f (snd (std_unique a f l)) =
           remdups_adj (subrange a f l)"
proof (cases "f = l")
  case True
  then show ?thesis by (simp add: std_unique_def)
next
  case False
  then have fl: "f < l" using assms by simp
  let ?r = "unique_loop a f (Suc f) l"
  have u: "std_unique a f l = ?r" using False by (simp add: std_unique_def)
  have sp: "length (fst ?r) = length a \<and> take (Suc f) (fst ?r) = take (Suc f) a \<and>
         drop l (fst ?r) = drop l a \<and> f < snd ?r \<and> snd ?r \<le> l \<and>
         subrange (fst ?r) f (snd ?r) = remdups_adj (a ! f # subrange a (Suc f) l)"
    using unique_loop_spec [of f "Suc f" l a] fl assms by simp
  have "take f (fst ?r) = take f (take (Suc f) (fst ?r))" by simp
  also have "\<dots> = take f a" using sp by simp
  finally have tk: "take f (fst ?r) = take f a" .
  have "subrange a f l = a ! f # subrange a (Suc f) l"
    using fl assms(2) by (rule subrange_Cons)
  then show ?thesis unfolding u using sp tk by simp
qed

lemma std_copy_spec:
  assumes "d \<le> f" "f \<le> l" "l \<le> length a"
  shows "std_copy a f l d = take d a @ subrange a f l @ drop (d + (l - f)) a"
  using assms
proof (induction a f l d rule: std_copy.induct)
  case (1 a f l d)
  show ?case
  proof (cases "f < l")
    case False
    then have "f = l" using "1.prems" by simp
    moreover have "std_copy a f l d = a" using False by (subst std_copy.simps) simp
    ultimately show ?thesis by simp
  next
    case True
    let ?a2 = "a[d := a ! f]"
    have u: "std_copy a f l d = std_copy ?a2 (Suc f) l (Suc d)"
      using True by (subst std_copy.simps) simp
    have IH: "std_copy ?a2 (Suc f) l (Suc d) =
        take (Suc d) ?a2 @ subrange ?a2 (Suc f) l @ drop (Suc d + (l - Suc f)) ?a2"
      using "1.IH" [OF True] "1.prems" True by simp
    have dl: "d < length a" using "1.prems" True by simp
    have t: "take (Suc d) ?a2 = take d a @ [a ! f]"
      using dl by (simp add: take_Suc_conv_app_nth)
    have s: "subrange ?a2 (Suc f) l = subrange a (Suc f) l"
      using "1.prems"(1) by (intro subrange_update_before) simp
    have "Suc d + (l - Suc f) = d + (l - f)" using True by simp
    then have dr: "drop (Suc d + (l - Suc f)) ?a2 = drop (d + (l - f)) a"
      using True by (simp del: add_Suc)
    have "subrange a f l = a ! f # subrange a (Suc f) l"
      using True "1.prems"(3) by (rule subrange_Cons)
    then show ?thesis unfolding u IH t s dr by simp
  qed
qed

lemma remdups_adj_join:
  assumes "xs \<noteq> []" "ys \<noteq> []"
  shows "remdups_adj (xs @ ys) =
           remdups_adj xs @ (if hd ys = last xs then tl (remdups_adj ys) else remdups_adj ys)"
proof (cases "hd ys = last xs")
  case False
  then show ?thesis using remdups_adj_append' [of xs ys] by auto
next
  case True
  obtain xs' x where xs: "xs = xs' @ [x]" using assms(1) by (metis rev_exhaust)
  obtain ys' where ys: "ys = x # ys'" using assms(2) True xs by (cases ys) auto
  have "remdups_adj (xs @ ys) = remdups_adj ((xs' @ [x]) @ x # ys')" by (simp add: xs ys)
  also have "\<dots> = remdups_adj ((xs' @ [x]) @ [x]) @ tl (remdups_adj (x # ys'))"
    by (rule remdups_adj_append)
  also have "remdups_adj ((xs' @ [x]) @ [x]) = remdups_adj (xs' @ [x])"
    using remdups_adj_append_two [of xs' x x] by simp
  finally show ?thesis using True by (simp add: xs ys)
qed

lemma chunk_start_mono:
  assumes "0 < ps" "ps * t \<le> n" "j \<le> i"
  shows "chunk_start n ps t j \<le> chunk_start n ps t i"
proof -
  have "ps * j \<le> n" if "j < t"
  proof -
    have "ps * j \<le> ps * t" using that by simp
    then show ?thesis using assms(2) by (rule order_trans)
  qed
  then show ?thesis using assms by (auto simp add: chunk_start_def)
qed

lemma chunk_start_strict:
  assumes "0 < ps" "ps * t \<le> n" "k < t"
  shows "chunk_start n ps t k < chunk_start n ps t (Suc k)"
proof (cases "Suc k < t")
  case True
  then show ?thesis using assms by (simp add: chunk_start_def)
next
  case False
  then have "Suc k = t" using assms(3) by simp
  then have "ps * k + ps = ps * t" by auto
  then have "ps * k < n" using assms(1,2) by linarith
  then show ?thesis using False assms(3) by (simp add: chunk_start_def)
qed

lemma chunk_start_le:
  assumes "0 < ps" "ps * t \<le> n"
  shows "chunk_start n ps t k \<le> n"
  using assms by (auto simp add: chunk_start_def intro: order_trans [of "ps * k" "ps * t" n])

lemma chunk_bounds:
  assumes "k < t"
  shows "chunk_begin ps k = chunk_start n ps t k" "chunk_end n ps t k = chunk_start n ps t (Suc k)"
  using assms by (auto simp add: chunk_begin_def chunk_end_def chunk_start_def)

lemma launch_spec:
  assumes ps: "0 < ps" "ps * t \<le> n"
    and k: "k \<le> t" and len: "length a0 = n" "length ths0 = k"
  shows "\<exists>a1 ths. launch ps t [k..<t] (a0, ths0) = (a1, ths) \<and> length a1 = n \<and>
           length ths = t \<and> take k ths = ths0 \<and>
           take (chunk_start n ps t k) a1 = take (chunk_start n ps t k) a0 \<and>
           (\<forall>i. k \<le> i \<and> i < t \<longrightarrow>
              chunk_start n ps t i < ths ! i \<and> ths ! i \<le> chunk_start n ps t (Suc i) \<and>
              subrange a1 (chunk_start n ps t i) (ths ! i) =
                remdups_adj (subrange a0 (chunk_start n ps t i) (chunk_start n ps t (Suc i))))"
  using k len
proof (induction "t - k" arbitrary: k a0 ths0)
  case 0
  then have "k = t" using "0.prems" by simp
  then show ?case using "0.prems" by auto
next
  case (Suc m)
  let ?cs = "chunk_start n ps t"
  have kt: "k < t" using Suc.hyps(2) by simp
  have up: "[k..<t] = k # [Suc k..<t]" using kt by (simp add: upt_conv_Cons)
  have fl: "?cs k < ?cs (Suc k)" using ps kt by (rule chunk_start_strict)
  have ln: "?cs (Suc k) \<le> length a0" using chunk_start_le [OF ps] Suc.prems(2) by simp
  let ?u = "std_unique a0 (?cs k) (?cs (Suc k))"
  have sp: "length (fst ?u) = length a0 \<and> take (?cs k) (fst ?u) = take (?cs k) a0 \<and>
         drop (?cs (Suc k)) (fst ?u) = drop (?cs (Suc k)) a0 \<and>
         ?cs k \<le> snd ?u \<and> snd ?u \<le> ?cs (Suc k) \<and> (?cs k < ?cs (Suc k) \<longrightarrow> ?cs k < snd ?u) \<and>
         subrange (fst ?u) (?cs k) (snd ?u) = remdups_adj (subrange a0 (?cs k) (?cs (Suc k)))"
    using fl ln by (intro std_unique_spec) simp_all
  obtain a' r where u: "?u = (a', r)" by (cases ?u)
  have step: "launch ps t [k..<t] (a0, ths0) = launch ps t [Suc k..<t] (a', ths0 @ [r])"
    unfolding up using u
    by (simp add: chunk_bounds [where n = n and ps = ps, OF kt] Suc.prems(2))
  have "\<exists>a1 ths. launch ps t [Suc k..<t] (a', ths0 @ [r]) = (a1, ths) \<and> length a1 = n \<and>
           length ths = t \<and> take (Suc k) ths = ths0 @ [r] \<and>
           take (?cs (Suc k)) a1 = take (?cs (Suc k)) a' \<and>
           (\<forall>i. Suc k \<le> i \<and> i < t \<longrightarrow>
              ?cs i < ths ! i \<and> ths ! i \<le> ?cs (Suc i) \<and>
              subrange a1 (?cs i) (ths ! i) =
                remdups_adj (subrange a' (?cs i) (?cs (Suc i))))"
  proof (rule Suc.hyps(1))
    show "m = t - Suc k" using Suc.hyps(2) by simp
    show "Suc k \<le> t" using kt by simp
    show "length a' = n" using sp u Suc.prems(2) by simp
    show "length (ths0 @ [r]) = Suc k" using Suc.prems(3) by simp
  qed
  then obtain a1 ths where r: "launch ps t [Suc k..<t] (a', ths0 @ [r]) = (a1, ths)"
    "length a1 = n" "length ths = t" "take (Suc k) ths = ths0 @ [r]"
    "take (?cs (Suc k)) a1 = take (?cs (Suc k)) a'"
    "\<forall>i. Suc k \<le> i \<and> i < t \<longrightarrow>
              ?cs i < ths ! i \<and> ths ! i \<le> ?cs (Suc i) \<and>
              subrange a1 (?cs i) (ths ! i) =
                remdups_adj (subrange a' (?cs i) (?cs (Suc i)))"
    by blast
  have tk: "take k ths = ths0"
  proof -
    have "take k ths = take k (take (Suc k) ths)" by simp
    then show ?thesis using r(4) Suc.prems(3) by simp
  qed
  have thk: "ths ! k = r"
  proof -
    have "ths ! k = take (Suc k) ths ! k" by simp
    then show ?thesis using r(4) Suc.prems(3) by (simp add: nth_append)
  qed
  have pre: "take (?cs k) a1 = take (?cs k) a0"
  proof -
    have "take (?cs k) a1 = take (?cs k) (take (?cs (Suc k)) a1)"
      using fl by (simp add: min_def)
    also have "\<dots> = take (?cs k) (take (?cs (Suc k)) a')" using r(5) by simp
    also have "\<dots> = take (?cs k) a'" using fl by (simp add: min_def)
    finally show ?thesis using sp u by simp
  qed
  have each: "?cs i < ths ! i \<and> ths ! i \<le> ?cs (Suc i) \<and>
              subrange a1 (?cs i) (ths ! i) =
                remdups_adj (subrange a0 (?cs i) (?cs (Suc i)))"
    if i: "k \<le> i" "i < t" for i
  proof (cases "i = k")
    case True
    have "subrange a1 (?cs k) r = subrange a' (?cs k) r"
      using r(5) by (rule subrange_take_eq) (use sp u in simp)
    then show ?thesis using True thk sp u fl by simp
  next
    case False
    then have ki: "Suc k \<le> i" using i by simp
    have "subrange a' (?cs i) (?cs (Suc i)) = subrange a0 (?cs i) (?cs (Suc i))"
    proof (rule subrange_drop_eq)
      show "drop (?cs (Suc k)) a' = drop (?cs (Suc k)) a0" using sp u by simp
      show "?cs (Suc k) \<le> ?cs i" using ps ki by (rule chunk_start_mono)
    qed
    then show ?thesis using r(6) ki i(2) by simp
  qed
  show ?case unfolding step using r(1,2,3) tk pre each by blast
qed

lemma take_subrange:
  assumes "s \<le> e"
  shows "take s a @ subrange a s e = take e a"
proof -
  have "take s a = take s (take e a)" using assms by (simp add: min_def)
  then show ?thesis unfolding subrange_alt by (metis append_take_drop_id)
qed

lemma last_take_nth:
  assumes "0 < m" "m \<le> length xs"
  shows "last (take m xs) = xs ! (m - 1)"
proof -
  have "take m xs \<noteq> []" using assms by auto
  then have "last (take m xs) = take m xs ! (length (take m xs) - 1)" by (rule last_conv_nth)
  then show ?thesis using assms by (simp add: min_def)
qed

lemma merge_step_state:
  assumes ab: "lst \<le> b'" "b' \<le> l" "l \<le> length a2"
  shows "length (std_copy a2 b' l lst) = length a2"
    and "take (lst + (l - b')) (std_copy a2 b' l lst) = take lst a2 @ subrange a2 b' l"
    and "l \<le> m \<Longrightarrow> drop m (std_copy a2 b' l lst) = drop m a2"
proof -
  let ?S = "subrange a2 b' l"
  have c: "std_copy a2 b' l lst = take lst a2 @ ?S @ drop (lst + (l - b')) a2"
    using ab by (rule std_copy_spec)
  have lS: "length ?S = l - b'" using ab(3) by (simp add: length_subrange)
  have lt: "length (take lst a2) = lst" using ab by simp
  show "length (std_copy a2 b' l lst) = length a2"
    unfolding c using lS lt ab by simp
  show "take (lst + (l - b')) (std_copy a2 b' l lst) = take lst a2 @ ?S"
    unfolding c using lS lt by simp
  show "drop m (std_copy a2 b' l lst) = drop m a2" if "l \<le> m"
  proof -
    have "lst + (l - b') \<le> m" using that ab by simp
    then have "drop m (std_copy a2 b' l lst) = drop (m - (lst + (l - b'))) (drop (lst + (l - b')) a2)"
      unfolding c using lS lt by simp
    also have "\<dots> = drop m a2" using \<open>lst + (l - b') \<le> m\<close> by simp
    finally show ?thesis .
  qed
qed

lemma merge_spec:
  assumes ps: "0 < ps" "ps * t \<le> n"
    and orig: "length a = n"
    and la: "\<forall>j. j < t \<longrightarrow>
              chunk_start n ps t j < ths ! j \<and> ths ! j \<le> chunk_start n ps t (Suc j) \<and>
              subrange a1 (chunk_start n ps t j) (ths ! j) =
                remdups_adj (subrange a (chunk_start n ps t j) (chunk_start n ps t (Suc j)))"
    and i: "1 \<le> i" "i \<le> t"
    and st: "length a2 = n" "take lst a2 = remdups_adj (take (chunk_start n ps t i) a)"
      "1 \<le> lst" "lst \<le> chunk_start n ps t i"
      "drop (chunk_start n ps t i) a2 = drop (chunk_start n ps t i) a1"
  shows "\<exists>a3 lst3. merge_chunks (=) ps ths [i..<t] (a2, lst) = Inr (a3, lst3) \<and>
           take lst3 a3 = remdups_adj a \<and> length a3 = n \<and> lst3 \<le> n"
  using i st
proof (induction "t - i" arbitrary: i a2 lst)
  case 0
  then have "i = t" by simp
  then have "chunk_start n ps t i = n" by (simp add: chunk_start_def)
  then show ?case using "0.prems" orig \<open>i = t\<close> by simp
next
  case (Suc m)
  let ?cs = "chunk_start n ps t"
  have it: "i < t" using Suc.hyps(2) by simp
  have up: "[i..<t] = i # [Suc i..<t]" using it by (simp add: upt_conv_Cons)
  define b where "b = ?cs i"
  define l where "l = ths ! i"
  have bl: "b < l" "l \<le> ?cs (Suc i)"
    and D: "subrange a1 b l = remdups_adj (subrange a b (?cs (Suc i)))"
    using la it unfolding b_def l_def by blast+
  have csn: "?cs (Suc i) \<le> n" using ps by (rule chunk_start_le)
  have ln: "l \<le> length a2" using bl csn Suc.prems(3) by simp
  have bpos: "0 < b"
  proof -
    have "?cs 0 < ?cs (Suc 0)" using ps it Suc.prems(1) by (intro chunk_start_strict) simp_all
    moreover have "?cs (Suc 0) \<le> ?cs i" using ps Suc.prems(1) by (intro chunk_start_mono) simp_all
    ultimately show ?thesis unfolding b_def by simp
  qed
  let ?P = "take b a" and ?C = "subrange a b (?cs (Suc i))"
  have Pne: "?P \<noteq> []" using bpos bl csn orig by auto
  have Cne: "?C \<noteq> []"
  proof -
    have "length ?C = ?cs (Suc i) - b" using csn orig by (simp add: length_subrange)
    then show ?thesis using bl by auto
  qed
  have D2: "subrange a2 b l = remdups_adj ?C"
  proof -
    have "subrange a2 b l = subrange a1 b l"
      using Suc.prems(7) unfolding b_def by (rule subrange_drop_eq) simp
    then show ?thesis using D by simp
  qed
  have hdD: "a2 ! b = hd ?C"
  proof -
    have "subrange a2 b l = a2 ! b # subrange a2 (Suc b) l" using bl(1) ln by (rule subrange_Cons)
    then have "hd (remdups_adj ?C) = a2 ! b" using D2 by simp
    then show ?thesis by simp
  qed
  have lastP: "a2 ! (lst - 1) = last ?P"
  proof -
    have "last (take lst a2) = a2 ! (lst - 1)"
      using Suc.prems(5,6,3) bl csn unfolding b_def by (intro last_take_nth) simp_all
    then show ?thesis using Suc.prems(4) unfolding b_def by simp
  qed
  define b' where "b' = (if a2 ! b = a2 ! (lst - 1) then Suc b else b)"
  have b'le: "lst \<le> b'" "b' \<le> l" using Suc.prems(6) bl unfolding b'_def b_def by auto
  have S: "subrange a2 b' l = (if hd ?C = last ?P then tl (remdups_adj ?C) else remdups_adj ?C)"
  proof (cases "a2 ! b = a2 ! (lst - 1)")
    case True
    have "subrange a2 b l = a2 ! b # subrange a2 (Suc b) l" using bl(1) ln by (rule subrange_Cons)
    then have "subrange a2 (Suc b) l = tl (remdups_adj ?C)" using D2 by (metis list.sel(3))
    then show ?thesis using True hdD lastP by (simp add: b'_def)
  next
    case False
    then show ?thesis using hdD lastP D2 by (simp add: b'_def)
  qed
  let ?a3 = "std_copy a2 b' l lst" and ?lst' = "lst + (l - b')"
  note ms = merge_step_state [OF b'le ln]
  have cb: "chunk_begin ps i = b"
    using it by (simp add: chunk_begin_def chunk_start_def b_def)
  have g1: "\<not> length a2 \<le> b" "lst \<noteq> 0" "\<not> length a2 < lst" "\<not> l < b'"
    using bl ln Suc.prems(5,6) b'le unfolding b_def by auto
  have step: "merge_chunks (=) ps ths [i..<t] (a2, lst) =
              merge_chunks (=) ps ths [Suc i..<t] (?a3, ?lst')"
  proof (cases "a2 ! b = a2 ! (lst - 1)")
    case True
    then have "b' = Suc b" by (simp add: b'_def)
    then show ?thesis
      unfolding up using True g1 by (simp add: cb l_def [symmetric] Let_def)
  next
    case False
    then have "b' = b" by (simp add: b'_def)
    then show ?thesis
      unfolding up using False g1 by (simp add: cb l_def [symmetric] Let_def)
  qed
  have "\<exists>a3 lst3. merge_chunks (=) ps ths [Suc i..<t] (?a3, ?lst') = Inr (a3, lst3) \<and>
           take lst3 a3 = remdups_adj a \<and> length a3 = n \<and> lst3 \<le> n"
  proof (rule Suc.hyps(1))
    show "m = t - Suc i" using Suc.hyps(2) by simp
    show "1 \<le> Suc i" by simp
    show "Suc i \<le> t" using it by simp
    show "length ?a3 = n" using ms(1) Suc.prems(3) by simp
    show "take ?lst' ?a3 = remdups_adj (take (?cs (Suc i)) a)"
    proof -
      have "take ?lst' ?a3 = remdups_adj ?P @ subrange a2 b' l"
        using ms(2) Suc.prems(4) unfolding b_def by simp
      also have "\<dots> = remdups_adj (?P @ ?C)"
        unfolding S using remdups_adj_join [OF Pne Cne] by simp
      also have "?P @ ?C = take (?cs (Suc i)) a"
        using bl by (intro take_subrange) simp
      finally show ?thesis .
    qed
    show "1 \<le> ?lst'" using Suc.prems(5) by simp
    show "?lst' \<le> ?cs (Suc i)" using b'le bl by simp
    show "drop (?cs (Suc i)) ?a3 = drop (?cs (Suc i)) a1"
    proof -
      have "drop (?cs (Suc i)) ?a3 = drop (?cs (Suc i)) a2" using bl(2) by (rule ms(3))
      also have "\<dots> = drop (?cs (Suc i) - b) (drop b a2)" using bl by simp
      also have "\<dots> = drop (?cs (Suc i) - b) (drop b a1)" using Suc.prems(7) unfolding b_def by simp
      also have "\<dots> = drop (?cs (Suc i)) a1" using bl by simp
      finally show ?thesis .
    qed
  qed
  then show ?case unfolding step .
qed

lemma unique_default_predicate:
  assumes ne: "a \<noteq> []" and t1: "1 \<le> unat t" and tn: "unat t \<le> length a"
  shows "\<exists>r. unique a (=) t = Inr r \<and> take (new_end r) (elems r) = remdups_adj a \<and>
           new_end r \<le> length (elems r) \<and> length (elems r) = length a \<and>
           executions r = unat t"
proof -
  define n where "n = length a"
  define T where "T = unat t"
  define ps where "ps = n div T"
  let ?cs = "chunk_start n ps T"
  have t0: "t \<noteq> 0" using t1 by auto
  have T: "1 \<le> T" "T \<le> n" using t1 tn unfolding T_def n_def by simp_all
  have ps: "0 < ps" "ps * T \<le> n"
    using T unfolding ps_def by (simp_all add: div_greater_zero_iff)
  obtain a1 ths where l: "launch ps T [0..<T] (a, []) = (a1, ths)" "length a1 = n"
    "length ths = T"
    and la: "\<forall>i. 0 \<le> i \<and> i < T \<longrightarrow>
              ?cs i < ths ! i \<and> ths ! i \<le> ?cs (Suc i) \<and>
              subrange a1 (?cs i) (ths ! i) = remdups_adj (subrange a (?cs i) (?cs (Suc i)))"
    using launch_spec [OF ps, of 0 a "[]"] n_def by auto
  have c0: "?cs 0 = 0" using T by (simp add: chunk_start_def)
  have first: "0 < ths ! 0" "ths ! 0 \<le> ?cs (Suc 0)"
    "subrange a1 0 (ths ! 0) = remdups_adj (subrange a 0 (?cs (Suc 0)))"
    using la T c0 by (metis Suc_le_lessD One_nat_def le0)+
  have "\<exists>a3 lst3. merge_chunks (=) ps ths [1..<T] (a1, ths ! 0) = Inr (a3, lst3) \<and>
           take lst3 a3 = remdups_adj a \<and> length a3 = n \<and> lst3 \<le> n"
  proof (rule merge_spec [OF ps])
    show "length a = n" by (simp add: n_def)
    show "\<forall>j. j < T \<longrightarrow>
              ?cs j < ths ! j \<and> ths ! j \<le> ?cs (Suc j) \<and>
              subrange a1 (?cs j) (ths ! j) = remdups_adj (subrange a (?cs j) (?cs (Suc j)))"
      using la by simp
    show "1 \<le> (1 :: nat)" by simp
    show "1 \<le> T" by (rule T)
    show "length a1 = n" by (rule l)
    show "take (ths ! 0) a1 = remdups_adj (take (?cs 1) a)"
      using first(3) by (simp add: subrange_alt)
    show "1 \<le> ths ! 0" using first(1) by simp
    show "ths ! 0 \<le> ?cs 1" using first(2) by simp
    show "drop (?cs 1) a1 = drop (?cs 1) a1" by simp
  qed
  then obtain a3 lst3 where m: "merge_chunks (=) ps ths [1..<T] (a1, ths ! 0) = Inr (a3, lst3)"
    "take lst3 a3 = remdups_adj a" "length a3 = n" "lst3 \<le> n"
    by blast
  have "unique a (=) t = Inr \<lparr>elems = a3, new_end = lst3, executions = length ths\<rparr>"
    using t0 l(1) m(1) unfolding unique_def by (simp add: T_def [symmetric] n_def [symmetric] ps_def [symmetric])
  then show ?thesis using m l(3) by (simp add: n_def T_def)
qed

lemma sorted_remdups_adj_distinct:
  fixes xs :: "'a :: linorder list"
  assumes "sorted xs"
  shows "distinct (remdups_adj xs)"
  using assms
proof (induction xs rule: remdups_adj.induct)
  case (3 x y xs)
  show ?case
  proof (cases "x = y")
    case True
    then show ?thesis using 3 by simp
  next
    case False
    then have "x < y" using "3.prems" by auto
    then have "x \<notin> set (y # xs)" using "3.prems" by auto
    then show ?thesis using 3 False by simp
  qed
qed simp_all

lemma unique_default_sorted:
  fixes a :: "'a :: linorder list"
  assumes "a \<noteq> []" "1 \<le> unat t" "unat t \<le> length a" "sorted a"
  shows "\<exists>r. unique a (=) t = Inr r \<and> new_end r = card (set a) \<and>
           distinct (take (new_end r) (elems r)) \<and> sorted (take (new_end r) (elems r)) \<and>
           set (take (new_end r) (elems r)) = set a"
proof -
  obtain r where r: "unique a (=) t = Inr r" "take (new_end r) (elems r) = remdups_adj a"
    "new_end r \<le> length (elems r)"
    using unique_default_predicate [OF assms(1,2,3)] by blast
  have d: "distinct (remdups_adj a)" using assms(4) by (rule sorted_remdups_adj_distinct)
  have "length (take (new_end r) (elems r)) = new_end r" using r(3) by simp
  then have "new_end r = length (remdups_adj a)" using r(2) by simp
  also have "\<dots> = card (set (remdups_adj a))" using distinct_card [OF d] by simp
  finally have "new_end r = card (set a)" by simp
  then show ?thesis using r d assms(4) by simp
qed

end
